theory Spec2Isabelle
  imports Complex_Main "HOL-Library.List_Lexorder" "HOL-Library.Char_ord"
begin

section \<open>The Domino simulator (domino.py): data model\<close>

text \<open>
  Health values are Python floats; they are modelled as reals, so rounding is not part of
  this development. Timestamps, the output directory and the log file are left out; the
  lines passed to \<open>Simulator.log\<close> are kept, in order, as values of \<open>log_line\<close>.
\<close>

subsection \<open>Python sets of names\<close>

text \<open>
  \<open>Service.depends_on\<close>, the values of \<open>rev_adj\<close> and the result of
  \<open>get_blast_radius\<close> are Python sets of strings. A set is kept as the list of its
  elements; every iteration over it (\<open>for x in s\<close>, \<open>list(s)\<close>) goes through
  \<open>set_iter\<close>, which orders the distinct elements by the interpreter's string hash
  \<open>h\<close>. CPython salts that hash per process, so \<open>h\<close> is a parameter of every
  function that iterates over a set.
\<close>

definition set_iter :: "(string \<Rightarrow> nat) \<Rightarrow> string list \<Rightarrow> string list" where
  "set_iter h xs = sort_key h (remdups xs)"

subsection \<open>Service, ServiceGraph, configuration\<close>

text \<open>
  The mutable attributes of a \<open>Service\<close> object. \<open>name\<close> and \<open>depends_on\<close> are
  assigned in \<open>__init__\<close> only and live in the graph below.
\<close>

record service =
  health :: real
  initial_health :: real
  is_failed :: bool
  failed_at_tick :: int
  recovery_timer :: int

text \<open>\<open>Service.__init__\<close>: \<open>float(health)\<close> is stored as it is.\<close>

definition Service :: "real \<Rightarrow> service" where
  "Service hl = \<lparr>health = hl, initial_health = hl, is_failed = False,
     failed_at_tick = - 1, recovery_timer = - 1\<rparr>"

text \<open>
  The dict \<open>ServiceGraph.services\<close> is held as its keys in insertion order (\<open>names\<close>)
  and a store from names to \<open>service\<close> records. The engine reads the store only at
  names that are keys (its lookups are guarded by \<open>in self.graph.services\<close>,
  \<open>.get\<close>, or come from \<open>rev_adj\<close>); \<open>query_why_failing\<close> is the one place where
  the source subscripts with an unchecked name, and the model raises \<open>KeyError\<close> there.
\<close>

record graph =
  names :: "string list"
  depends_on :: "string \<Rightarrow> string list"

type_synonym store = "string \<Rightarrow> service"

text \<open>One element of \<open>services_data\<close>: \<open>name\<close>, \<open>depends_on\<close> (\<open>[]\<close> when the key
  is absent) and \<open>health\<close>.\<close>

record service_desc =
  d_name :: string
  d_depends_on :: "string list"
  d_health :: real

text \<open>
  \<open>ServiceGraph.__init__\<close>: the dict comprehension keeps the position of the first
  descriptor of a name and the value of the last one.
\<close>

definition add_service :: "service_desc \<Rightarrow> graph \<times> store \<Rightarrow> graph \<times> store" where
  "add_service d gs =
     (let g = fst gs; S = snd gs in
      (\<lparr>names = (if d_name d \<in> set (names g) then names g else names g @ [d_name d]),
        depends_on = (depends_on g)(d_name d := d_depends_on d)\<rparr>,
       S(d_name d := Service (d_health d))))"

definition ServiceGraph :: "service_desc list \<Rightarrow> graph \<times> store" where
  "ServiceGraph services_data =
     fold add_service services_data
       (\<lparr>names = [], depends_on = (\<lambda>n. [])\<rparr>, (\<lambda>n. Service 0))"

text \<open>
  \<open>build_reverse_adjacency\<close>: \<open>rev_adj[dep]\<close> holds the names of the services that
  list \<open>dep\<close> among their dependencies, when \<open>dep\<close> is itself a service. The topology
  never changes after construction, so \<open>rev_adj.get(d, [])\<close> is computed from the graph.
\<close>

definition rev_adj :: "(string \<Rightarrow> nat) \<Rightarrow> graph \<Rightarrow> string \<Rightarrow> string list" where
  "rev_adj h g d =
     set_iter h (filter (\<lambda>n. d \<in> set (depends_on g n) \<and> d \<in> set (names g)) (names g))"

text \<open>The configuration dict. \<open>cooldown\<close> is the one key the source tests for
  presence; the other keys are subscripted and taken as present.\<close>

record config =
  ticks :: int
  threshold :: real
  alpha :: real
  seed :: int
  cooldown :: "int option"
  heal_to :: real

subsection \<open>Ledgers, log and simulator state\<close>

datatype event =
  Glitch_event int string real real
| Failure_event int string real

record incident =
  inc_tick :: int
  roots :: "string list"
  impacted :: "(string \<times> string list) list"
  priority :: string

datatype log_line =
  Title_line
| Run_line int real int
| Start_line
| Warn_cycle "string list"
| Boot_line nat
| Tick_line int
| Glitch_line string real real
| Heal_line string real int
| Recovery_head string
| Recovery_item string real real
| Info_healthy real string
| Alert_line string real real
| Info_no_root
| Blast_line string "string list"
| Priority_line "string list" "string list"
| Suggestion_line string
| End_line

datatype error = ValueError | KeyError string

text \<open>
  The simulator: the store of services, the tick counter, the two ledgers, the
  degradation history (one sample \<open>(name, tick, health, is_failed)\<close> per append), the
  log, and the number of glitches drawn from the random generator so far.
\<close>

record simulator =
  services :: store
  tick :: int
  events :: "event list"
  incident_log :: "incident list"
  service_degradation_history :: "(string \<times> int \<times> real \<times> bool) list"
  log :: "log_line list"
  draws :: nat

definition Simulator :: "store \<Rightarrow> simulator" where
  "Simulator S = \<lparr>services = S, tick = 0, events = [], incident_log = [],
     service_degradation_history = [], log = [], draws = 0\<rparr>"

text \<open>
  Python's \<open>random\<close> module is outside the repository. After \<open>random.seed(seed)\<close> the
  \<open>k\<close>-th glitch draws \<open>rnd seed k = (i, delta)\<close>: \<open>random.choice\<close> returns the
  element at index \<open>i mod len(eligible)\<close> and \<open>random.uniform(0.2, 0.5)\<close> returns
  \<open>delta\<close>.
\<close>

type_synonym rng = "int \<Rightarrow> nat \<Rightarrow> nat \<times> real"

section \<open>The engine\<close>

subsection \<open>apply_glitch\<close>

definition set_health :: "string \<Rightarrow> real \<Rightarrow> store \<Rightarrow> store" where
  "set_health n v S = S(n := (S n)\<lparr>health := v\<rparr>)"

definition eligible :: "config \<Rightarrow> graph \<Rightarrow> store \<Rightarrow> string list" where
  "eligible cfg g S = filter (\<lambda>n. threshold cfg \<le> health (S n)) (names g)"

text \<open>\<open>apply_glitch\<close> returns the victim's name, or \<open>None\<close> when nobody is eligible.\<close>

definition apply_glitch :: "rng \<Rightarrow> config \<Rightarrow> graph \<Rightarrow> simulator \<Rightarrow> string option \<times> simulator" where
  "apply_glitch rnd cfg g s =
     (let el = eligible cfg g (services s) in
      if el = [] then (None, s)
      else
        let dr = rnd (seed cfg) (draws s);
            victim = el ! (fst dr mod length el);
            glitch_delta = snd dr
        in (Some victim,
            s\<lparr>services := set_health victim
                 (max 0 (health (services s victim) - glitch_delta)) (services s),
              draws := Suc (draws s)\<rparr>))"

subsection \<open>propagate_health\<close>

text \<open>The inner loop over \<open>service.depends_on\<close>, accumulating \<open>total_degradation\<close>.\<close>

definition add_degradation :: "config \<Rightarrow> graph \<Rightarrow> store \<Rightarrow> string \<Rightarrow> real \<Rightarrow> real" where
  "add_degradation cfg g S dep_name acc =
     (if dep_name \<in> set (names g) \<and> health (S dep_name) < threshold cfg
      then acc + alpha cfg * (threshold cfg - health (S dep_name))
      else acc)"

definition total_degradation ::
  "(string \<Rightarrow> nat) \<Rightarrow> config \<Rightarrow> graph \<Rightarrow> store \<Rightarrow> string \<Rightarrow> real" where
  "total_degradation h cfg g S n =
     fold (add_degradation cfg g S) (set_iter h (depends_on g n)) 0"

text \<open>The body of the loop over \<open>services.values()\<close>, on the pair (store, \<open>changed\<close>).\<close>

definition sweep_service ::
  "(string \<Rightarrow> nat) \<Rightarrow> config \<Rightarrow> graph \<Rightarrow> string \<Rightarrow> store \<times> bool \<Rightarrow> store \<times> bool" where
  "sweep_service h cfg g n Sc =
     (let S = fst Sc in
      if depends_on g n = [] then Sc
      else
        let td = total_degradation h cfg g S n in
        if 0 < td then
          let new_health = max 0 (initial_health (S n) - td) in
          if 0.001 < \<bar>new_health - health (S n)\<bar>
          then (set_health n new_health S, True)
          else Sc
        else Sc)"

definition sweep :: "(string \<Rightarrow> nat) \<Rightarrow> config \<Rightarrow> graph \<Rightarrow> store \<Rightarrow> store \<times> bool" where
  "sweep h cfg g S = fold (sweep_service h cfg g) (names g) (S, False)"

text \<open>
  \<open>for _ in range(len(services))\<close> with its \<open>break\<close>: the first argument is the number
  of iterations left; the result carries the number of sweeps performed.
\<close>

fun sweeps :: "(string \<Rightarrow> nat) \<Rightarrow> config \<Rightarrow> graph \<Rightarrow> nat \<Rightarrow> store \<Rightarrow> store \<times> nat" where
  "sweeps h cfg g 0 S = (S, 0)"
| "sweeps h cfg g (Suc k) S =
     (let Sc = sweep h cfg g S in
      if \<not> snd Sc then (fst Sc, 1)
      else (let r = sweeps h cfg g k (fst Sc) in (fst r, Suc (snd r))))"

definition propagate_health ::
  "(string \<Rightarrow> nat) \<Rightarrow> config \<Rightarrow> graph \<Rightarrow> simulator \<Rightarrow> simulator" where
  "propagate_health h cfg g s =
     s\<lparr>services := fst (sweeps h cfg g (length (names g)) (services s))\<rparr>"

subsection \<open>propagate_recovery\<close>

text \<open>
  The state of the breadth-first loop: the store, the \<open>visited\<close> set (in order of
  insertion), the queue and the \<open>recovered\<close> list.
\<close>

record ripple =
  r_store :: store
  r_visited :: "string list"
  r_queue :: "string list"
  r_recovered :: "(string \<times> real \<times> real) list"

definition all_deps_healthy ::
  "(string \<Rightarrow> nat) \<Rightarrow> config \<Rightarrow> graph \<Rightarrow> store \<Rightarrow> string \<Rightarrow> bool" where
  "all_deps_healthy h cfg g S n =
     list_all (\<lambda>dep. threshold cfg \<le> health (S dep))
       (filter (\<lambda>dep. dep \<in> set (names g)) (set_iter h (depends_on g n)))"

text \<open>The bump of one dependent, with the reset of its failure flag and timer.\<close>

definition bump :: "config \<Rightarrow> string \<Rightarrow> store \<Rightarrow> store" where
  "bump cfg n S =
     (let old_health = health (S n);
          improvement = (heal_to cfg - old_health) * 0.5;
          new_health = min 1 (old_health + improvement);
          S1 = set_health n new_health S
      in if threshold cfg \<le> new_health
         then S1(n := (S1 n)\<lparr>is_failed := False, recovery_timer := - 1\<rparr>)
         else S1)"

text \<open>The body of \<open>for dependent_name in rev_adj.get(current, [])\<close>: marking the
  dependent visited and queueing it happen inside the branch that bumps it.\<close>

definition ripple_step ::
  "(string \<Rightarrow> nat) \<Rightarrow> config \<Rightarrow> graph \<Rightarrow> string \<Rightarrow> ripple \<Rightarrow> ripple" where
  "ripple_step h cfg g dependent_name r =
     (if dependent_name \<in> set (r_visited r) then r
      else if all_deps_healthy h cfg g (r_store r) dependent_name
              \<and> health (r_store r dependent_name) < heal_to cfg
      then
        let S' = bump cfg dependent_name (r_store r) in
        \<lparr>r_store = S',
         r_visited = r_visited r @ [dependent_name],
         r_queue = r_queue r @ [dependent_name],
         r_recovered = r_recovered r @
           [(dependent_name, health (r_store r dependent_name), health (S' dependent_name))]\<rparr>
      else r)"

definition ripple_measure :: "graph \<Rightarrow> ripple \<Rightarrow> nat" where
  "ripple_measure g r = 2 * card (set (names g) - set (r_visited r)) + length (r_queue r)"

lemma set_iter_set [simp]: "set (set_iter h xs) = set xs"
  by (simp add: set_iter_def)

lemma set_iter_distinct [simp]: "distinct (set_iter h xs)"
  by (simp add: set_iter_def)

lemma rev_adj_names: "n \<in> set (rev_adj h g d) \<Longrightarrow> n \<in> set (names g)"
  by (simp add: rev_adj_def)

lemma card_diff_insert_less:
  assumes "n \<in> set N" and "n \<notin> set V"
  shows "Suc (card (set N - set (V @ [n]))) = card (set N - set V)"
proof -
  have eq: "set N - set (V @ [n]) = (set N - set V) - {n}" by auto
  have mem: "n \<in> set N - set V" using assms by simp
  have fin: "finite (set N - set V)" by simp
  have "card (set N - set V) = Suc (card ((set N - set V) - {n}))"
    using fin mem by (rule card.remove)
  then show ?thesis unfolding eq by simp
qed

lemma ripple_step_measure:
  assumes "n \<in> set (names g)"
  shows "ripple_measure g (ripple_step h cfg g n r) \<le> ripple_measure g r"
proof (cases "n \<in> set (r_visited r)")
  case True
  then show ?thesis by (simp add: ripple_step_def)
next
  case False
  have "Suc (card (set (names g) - set (r_visited r @ [n])))
        = card (set (names g) - set (r_visited r))"
    using card_diff_insert_less [OF assms False] .
  then show ?thesis
    unfolding ripple_step_def ripple_measure_def Let_def
    by (simp del: set_append)
qed

lemma ripple_fold_measure:
  "set ds \<subseteq> set (names g) \<Longrightarrow>
   ripple_measure g (fold (ripple_step h cfg g) ds r) \<le> ripple_measure g r"
proof (induction ds arbitrary: r)
  case Nil
  then show ?case by simp
next
  case (Cons d ds)
  have "ripple_measure g (fold (ripple_step h cfg g) ds (ripple_step h cfg g d r))
        \<le> ripple_measure g (ripple_step h cfg g d r)"
    using Cons by simp
  also have "\<dots> \<le> ripple_measure g r"
    using Cons.prems by (simp add: ripple_step_measure)
  finally show ?case by simp
qed

text \<open>\<open>while queue: current = queue.popleft(); ...\<close>\<close>

function ripple_loop :: "(string \<Rightarrow> nat) \<Rightarrow> config \<Rightarrow> graph \<Rightarrow> ripple \<Rightarrow> ripple" where
  "ripple_loop h cfg g r =
     (case r_queue r of
        [] \<Rightarrow> r
      | current # rest \<Rightarrow>
          ripple_loop h cfg g
            (fold (ripple_step h cfg g) (rev_adj h g current) (r\<lparr>r_queue := rest\<rparr>)))"
  by pat_completeness auto
termination
proof (relation "measure (\<lambda>(h, cfg, g, r). ripple_measure g r)")
  show "wf (measure (\<lambda>(h, cfg, g, r). ripple_measure g r))" by simp
next
  fix h :: "string \<Rightarrow> nat" and cfg :: config and g :: graph and r :: ripple
    and current :: string and rest :: "string list"
  assume q: "r_queue r = current # rest"
  have "ripple_measure g (fold (ripple_step h cfg g) (rev_adj h g current) (r\<lparr>r_queue := rest\<rparr>))
        \<le> ripple_measure g (r\<lparr>r_queue := rest\<rparr>)"
    by (rule ripple_fold_measure) (auto dest: rev_adj_names)
  also have "\<dots> < ripple_measure g r"
    using q by (simp add: ripple_measure_def)
  finally show "((h, cfg, g, fold (ripple_step h cfg g) (rev_adj h g current) (r\<lparr>r_queue := rest\<rparr>)),
                 (h, cfg, g, r)) \<in> measure (\<lambda>(h, cfg, g, r). ripple_measure g r)"
    by simp
qed

declare ripple_loop.simps [simp del]

definition recovery_lines :: "string \<Rightarrow> (string \<times> real \<times> real) list \<Rightarrow> log_line list" where
  "recovery_lines healed recovered =
     (if recovered = [] then []
      else Recovery_head healed #
           map (\<lambda>e. Recovery_item (fst e) (fst (snd e)) (snd (snd e))) recovered)"

definition propagate_recovery ::
  "(string \<Rightarrow> nat) \<Rightarrow> config \<Rightarrow> graph \<Rightarrow> string \<Rightarrow> simulator \<Rightarrow> simulator" where
  "propagate_recovery h cfg g healed_service_name s =
     (let r = ripple_loop h cfg g
                \<lparr>r_store = services s, r_visited = [healed_service_name],
                 r_queue = [healed_service_name], r_recovered = []\<rparr>
      in s\<lparr>services := r_store r,
           log := log s @ recovery_lines healed_service_name (r_recovered r)\<rparr>)"

subsection \<open>handle_recovery\<close>

text \<open>The first loop: decrement the timer of a failed service, collect the services
  whose timer is 0.\<close>

definition timer_step :: "string \<Rightarrow> store \<times> string list \<Rightarrow> store \<times> string list" where
  "timer_step n St =
     (let S = fst St;
          S1 = (if is_failed (S n) \<and> 0 < recovery_timer (S n)
                then S(n := (S n)\<lparr>recovery_timer := recovery_timer (S n) - 1\<rparr>)
                else S)
      in (S1, if recovery_timer (S1 n) = 0 then snd St @ [n] else snd St))"

text \<open>The body of the second loop, for one service to heal.\<close>

definition heal_service ::
  "(string \<Rightarrow> nat) \<Rightarrow> config \<Rightarrow> graph \<Rightarrow> string \<Rightarrow> simulator \<Rightarrow> simulator" where
  "heal_service h cfg g n s =
     propagate_recovery h cfg g n
       (s\<lparr>services := (services s)
             (n := (services s n)\<lparr>health := heal_to cfg, is_failed := False,
                                  recovery_timer := - 1\<rparr>),
          log := log s @ [Heal_line n (heal_to cfg) (tick s)]\<rparr>)"

definition handle_recovery ::
  "(string \<Rightarrow> nat) \<Rightarrow> config \<Rightarrow> graph \<Rightarrow> simulator \<Rightarrow> simulator" where
  "handle_recovery h cfg g s =
     (if cooldown cfg = None then s
      else
        let St = fold timer_step (names g) (services s, []) in
        fold (heal_service h cfg g) (snd St) (s\<lparr>services := fst St\<rparr>))"

subsection \<open>get_blast_radius\<close>

record blast =
  b_visited :: "string list"
  b_impacted :: "string list"
  b_q :: "string list"

definition blast_step :: "string \<Rightarrow> blast \<Rightarrow> blast" where
  "blast_step neighbor b =
     (if neighbor \<notin> set (b_visited b)
      then \<lparr>b_visited = b_visited b @ [neighbor],
            b_impacted = b_impacted b @ [neighbor],
            b_q = b_q b @ [neighbor]\<rparr>
      else b)"

definition blast_measure :: "graph \<Rightarrow> blast \<Rightarrow> nat" where
  "blast_measure g b = 2 * card (set (names g) - set (b_visited b)) + length (b_q b)"

lemma blast_step_measure:
  assumes "n \<in> set (names g)"
  shows "blast_measure g (blast_step n b) \<le> blast_measure g b"
proof (cases "n \<in> set (b_visited b)")
  case True
  then show ?thesis by (simp add: blast_step_def)
next
  case False
  have "Suc (card (set (names g) - set (b_visited b @ [n])))
        = card (set (names g) - set (b_visited b))"
    using card_diff_insert_less [OF assms False] .
  then show ?thesis
    unfolding blast_step_def blast_measure_def
    by (simp del: set_append)
qed

lemma blast_fold_measure:
  "set ds \<subseteq> set (names g) \<Longrightarrow>
   blast_measure g (fold blast_step ds b) \<le> blast_measure g b"
proof (induction ds arbitrary: b)
  case Nil
  then show ?case by simp
next
  case (Cons d ds)
  have "blast_measure g (fold blast_step ds (blast_step d b)) \<le> blast_measure g (blast_step d b)"
    using Cons by simp
  also have "\<dots> \<le> blast_measure g b"
    using Cons.prems by (simp add: blast_step_measure)
  finally show ?case by simp
qed

function blast_loop :: "(string \<Rightarrow> nat) \<Rightarrow> graph \<Rightarrow> blast \<Rightarrow> blast" where
  "blast_loop h g b =
     (case b_q b of
        [] \<Rightarrow> b
      | cur # rest \<Rightarrow>
          blast_loop h g (fold blast_step (rev_adj h g cur) (b\<lparr>b_q := rest\<rparr>)))"
  by pat_completeness auto
termination
proof (relation "measure (\<lambda>(h, g, b). blast_measure g b)")
  show "wf (measure (\<lambda>(h, g, b). blast_measure g b))" by simp
next
  fix h :: "string \<Rightarrow> nat" and g :: graph and b :: blast
    and cur :: string and rest :: "string list"
  assume q: "b_q b = cur # rest"
  have "blast_measure g (fold blast_step (rev_adj h g cur) (b\<lparr>b_q := rest\<rparr>))
        \<le> blast_measure g (b\<lparr>b_q := rest\<rparr>)"
    by (rule blast_fold_measure) (auto dest: rev_adj_names)
  also have "\<dots> < blast_measure g b"
    using q by (simp add: blast_measure_def)
  finally show "((h, g, fold blast_step (rev_adj h g cur) (b\<lparr>b_q := rest\<rparr>)), (h, g, b))
                 \<in> measure (\<lambda>(h, g, b). blast_measure g b)"
    by simp
qed

declare blast_loop.simps [simp del]

text \<open>The result is the set \<open>impacted\<close>, kept as its elements in insertion order.\<close>

definition get_blast_radius :: "(string \<Rightarrow> nat) \<Rightarrow> graph \<Rightarrow> string \<Rightarrow> string list" where
  "get_blast_radius h g start_node =
     b_impacted (blast_loop h g
       \<lparr>b_visited = [start_node], b_impacted = [], b_q = [start_node]\<rparr>)"

subsection \<open>perform_rca\<close>

text \<open>\<open>min(xs, key=f)\<close> on a non-empty list \<open>x # xs\<close>: the first element of least key.\<close>

definition min_by :: "('a \<Rightarrow> real) \<Rightarrow> 'a \<Rightarrow> 'a list \<Rightarrow> 'a" where
  "min_by f x xs = fold (\<lambda>y m. if f y < f m then y else m) xs x"

text \<open>\<open>sorted(xs, key=f, reverse=True)\<close>: descending in the key, and stable (elements of
  equal key keep their order), which is the insertion sort on the negated key.\<close>

definition sorted_desc :: "('a \<Rightarrow> nat) \<Rightarrow> 'a list \<Rightarrow> 'a list" where
  "sorted_desc f xs = sort_key (\<lambda>x. - int (f x)) xs"

text \<open>The loop over \<open>service.depends_on\<close> with its \<open>break\<close>.\<close>

definition is_root :: "(string \<Rightarrow> nat) \<Rightarrow> graph \<Rightarrow> store \<Rightarrow> string \<Rightarrow> bool" where
  "is_root h g S n =
     (\<not> list_ex (\<lambda>dep_name. dep_name \<in> set (names g) \<and> is_failed (S dep_name))
          (set_iter h (depends_on g n)))"

definition root_causes_of ::
  "(string \<Rightarrow> nat) \<Rightarrow> graph \<Rightarrow> store \<Rightarrow> string list \<Rightarrow> string list" where
  "root_causes_of h g S failed_services =
     (let found = filter (is_root h g S) failed_services in
      case failed_services of
        [] \<Rightarrow> found
      | x # xs \<Rightarrow> if found = [] then [min_by (\<lambda>n. health (S n)) x xs] else found)"

text \<open>\<open>len(blast_radii.get(name, []))\<close> on the dict \<open>blast_radii\<close>.\<close>

definition radius_len :: "(string \<times> string list) list \<Rightarrow> string \<Rightarrow> nat" where
  "radius_len blast_radii n =
     (case map_of blast_radii n of None \<Rightarrow> 0 | Some radius \<Rightarrow> length (remdups radius))"

definition perform_rca ::
  "(string \<Rightarrow> nat) \<Rightarrow> graph \<Rightarrow> string list \<Rightarrow> simulator \<Rightarrow> simulator" where
  "perform_rca h g failed_services s =
     (let S = services s;
          root_causes = root_causes_of h g S failed_services;
          fallback_lines =
            (if filter (is_root h g S) failed_services = [] \<and> failed_services \<noteq> []
             then [Info_no_root] else []);
          blast_radii = map (\<lambda>r. (r, get_blast_radius h g r)) root_causes;
          blast_lines =
            map (\<lambda>e. Blast_line (fst e) (set_iter h (snd e)))
              (filter (\<lambda>e. snd e \<noteq> []) blast_radii);
          sorted_roots = sorted_desc (radius_len blast_radii) root_causes;
          lines = fallback_lines @ blast_lines @ [Priority_line root_causes sorted_roots]
      in case sorted_roots of
           [] \<Rightarrow> s\<lparr>log := log s @ lines\<rparr>
         | first # others \<Rightarrow>
             s\<lparr>log := log s @ lines @ [Suggestion_line first],
               incident_log := incident_log s @
                 [\<lparr>inc_tick = tick s, roots = root_causes,
                   impacted = map (\<lambda>r. (r, set_iter h (get_blast_radius h g r))) root_causes,
                   priority = first\<rparr>]\<rparr>)"

subsection \<open>run_tick and run\<close>

text \<open>The first loop of \<open>run_tick\<close>: the baseline and the history sample.\<close>

definition snapshot_service :: "string \<Rightarrow> simulator \<Rightarrow> simulator" where
  "snapshot_service n s =
     s\<lparr>services := (services s)
          (n := (services s n)\<lparr>initial_health := health (services s n)\<rparr>),
       service_degradation_history := service_degradation_history s @
          [(n, tick s, health (services s n), is_failed (services s n))]\<rparr>"

definition snapshot :: "graph \<Rightarrow> simulator \<Rightarrow> simulator" where
  "snapshot g s = fold snapshot_service (names g) s"

text \<open>\<open>apply_glitch\<close> with the log line and the ledger entry of \<open>run_tick\<close>.\<close>

definition glitch_phase :: "rng \<Rightarrow> config \<Rightarrow> graph \<Rightarrow> simulator \<Rightarrow> simulator" where
  "glitch_phase rnd cfg g s =
     (let r = apply_glitch rnd cfg g s; s' = snd r in
      case fst r of
        None \<Rightarrow> s'
      | Some v \<Rightarrow>
          s'\<lparr>log := log s' @
                [Glitch_line v (initial_health (services s' v)) (health (services s' v))],
             events := events s' @
                [Glitch_event (tick s') v (initial_health (services s' v))
                   (health (services s' v))]\<rparr>)"

text \<open>The body of \<open>for service in newly_failed\<close>.\<close>

definition mark_failed :: "config \<Rightarrow> string \<Rightarrow> simulator \<Rightarrow> simulator" where
  "mark_failed cfg n s =
     s\<lparr>services := (services s)
          (n := (services s n)\<lparr>is_failed := True, failed_at_tick := tick s,
                recovery_timer := (case cooldown cfg of None \<Rightarrow> - 1 | Some c \<Rightarrow> c)\<rparr>),
       log := log s @ [Alert_line n (health (services s n)) (threshold cfg)],
       events := events s @ [Failure_event (tick s) n (health (services s n))]\<rparr>"

text \<open>
  The rest of \<open>run_tick\<close>, from \<open>failed_services = [...]\<close> on. \<open>min\<close> over the
  services raises \<open>ValueError\<close> when there is no service.
\<close>

definition detect_failures ::
  "(string \<Rightarrow> nat) \<Rightarrow> config \<Rightarrow> graph \<Rightarrow> simulator \<Rightarrow> error + simulator" where
  "detect_failures h cfg g s =
     (let failed_services =
            filter (\<lambda>n. health (services s n) < threshold cfg) (names g) in
      if failed_services = [] then
        (case names g of
           [] \<Rightarrow> Inl ValueError
         | x # xs \<Rightarrow>
             let m = min_by (\<lambda>n. health (services s n)) x xs in
             Inr (s\<lparr>log := log s @ [Info_healthy (health (services s m)) m]\<rparr>))
      else
        let newly_failed = filter (\<lambda>n. \<not> is_failed (services s n)) failed_services;
            s1 = fold (mark_failed cfg) newly_failed s
        in Inr (if newly_failed \<noteq> [] then perform_rca h g failed_services s1 else s1))"

definition run_tick ::
  "rng \<Rightarrow> (string \<Rightarrow> nat) \<Rightarrow> config \<Rightarrow> graph \<Rightarrow> simulator \<Rightarrow> error + simulator" where
  "run_tick rnd h cfg g s =
     detect_failures h cfg g
       (propagate_health h cfg g
         (handle_recovery h cfg g
           (glitch_phase rnd cfg g
             (snapshot g s))))"

text \<open>\<open>for self.tick in range(1, ticks + 1)\<close>; an exception ends the run.\<close>

fun run_ticks ::
  "rng \<Rightarrow> (string \<Rightarrow> nat) \<Rightarrow> config \<Rightarrow> graph \<Rightarrow> int list \<Rightarrow> simulator \<Rightarrow> error + simulator" where
  "run_ticks rnd h cfg g [] s = Inr s"
| "run_ticks rnd h cfg g (t # ts) s =
     (case run_tick rnd h cfg g (s\<lparr>tick := t, log := log s @ [Tick_line t]\<rparr>) of
        Inl e \<Rightarrow> Inl e
      | Inr s' \<Rightarrow> run_ticks rnd h cfg g ts s')"

text \<open>
  \<open>Simulator.run\<close>. \<open>cycles\<close> is the value of \<open>ServiceGraph.cycles\<close>, filled by
  \<open>topological_sort\<close> (empty when the sort succeeds); it only feeds the warning lines.
\<close>

definition run ::
  "rng \<Rightarrow> (string \<Rightarrow> nat) \<Rightarrow> config \<Rightarrow> graph \<Rightarrow> string list list \<Rightarrow> simulator
   \<Rightarrow> error + simulator" where
  "run rnd h cfg g cycles s =
     (let s0 = s\<lparr>log := log s @
                 [Title_line, Run_line (ticks cfg) (threshold cfg) (seed cfg), Start_line]
                 @ map Warn_cycle cycles @ [Boot_line (length (names g))]\<rparr>
      in case run_ticks rnd h cfg g [1..ticks cfg] s0 of
           Inl e \<Rightarrow> Inl e
         | Inr s' \<Rightarrow> Inr (s'\<lparr>log := log s' @ [End_line]\<rparr>))"

section \<open>The why-failing query\<close>

datatype cause =
  Independent "(int \<times> real \<times> real) option"
| Cascade "(string \<times> real \<times> int) list"

datatype answer =
  Not_found string
| Healthy string real
| Failing string real real "int option" cause "string list"

definition last_glitch :: "string \<Rightarrow> event list \<Rightarrow> (int \<times> real \<times> real) option" where
  "last_glitch n evs =
     (case rev (concat (map (\<lambda>e. case e of
                 Glitch_event t v old new \<Rightarrow> (if v = n then [(t, old, new)] else [])
               | Failure_event t v hl \<Rightarrow> []) evs)) of
        [] \<Rightarrow> None
      | e # es \<Rightarrow> Some e)"

text \<open>
  \<open>query_why_failing\<close>. The comprehension for \<open>failed_deps\<close> subscripts
  \<open>self.graph.services[d]\<close> for every \<open>d\<close> of \<open>depends_on\<close>: the first name that is no
  service raises \<open>KeyError\<close>.
\<close>

definition query_why_failing ::
  "(string \<Rightarrow> nat) \<Rightarrow> config \<Rightarrow> graph \<Rightarrow> simulator \<Rightarrow> string \<Rightarrow> error + answer" where
  "query_why_failing h cfg g s service_name =
     (if service_name \<notin> set (names g) then Inr (Not_found service_name)
      else
        let service = services s service_name in
        if threshold cfg \<le> health service then Inr (Healthy service_name (health service))
        else
          let deps = set_iter h (depends_on g service_name) in
          case find (\<lambda>d. d \<notin> set (names g)) deps of
            Some d \<Rightarrow> Inl (KeyError d)
          | None \<Rightarrow>
              let failed_at = (if 0 < failed_at_tick service
                               then Some (failed_at_tick service) else None);
                  failed_deps = filter (\<lambda>d. health (services s d) < threshold cfg) deps;
                  why = (if failed_deps = []
                         then Independent (last_glitch service_name (events s))
                         else Cascade (map (\<lambda>d. (d, health (services s d),
                                                  failed_at_tick (services s d))) failed_deps))
              in Inr (Failing service_name (health service) (threshold cfg) failed_at why
                        (sort (rev_adj h g service_name))))"

section \<open>Example inputs\<close>

text \<open>A hash under which every set iterates in insertion order, and one that puts
  \<open>C\<close> first.\<close>

definition hash0 :: "string \<Rightarrow> nat" where
  "hash0 n = 0"

definition hash1 :: "string \<Rightarrow> nat" where
  "hash1 n = (if n = ''C'' then 0 else 1)"

definition cfg_demo :: config where
  "cfg_demo = \<lparr>ticks = 3, threshold = 0.5, alpha = 0.5, seed = 42,
                cooldown = None, heal_to = 0.9\<rparr>"

text \<open>Two services that depend on each other, \<open>A\<close> below the threshold.\<close>

definition ring_data :: "service_desc list" where
  "ring_data = [\<lparr>d_name = ''A'', d_depends_on = [''B''], d_health = 0.2\<rparr>,
                \<lparr>d_name = ''B'', d_depends_on = [''A''], d_health = 0.9\<rparr>]"

text \<open>The same topology with both services healthy.\<close>

definition ring_ok_data :: "service_desc list" where
  "ring_ok_data = [\<lparr>d_name = ''A'', d_depends_on = [''B''], d_health = 0.8\<rparr>,
                   \<lparr>d_name = ''B'', d_depends_on = [''A''], d_health = 0.9\<rparr>]"

text \<open>One failing service with a dependency that is not a service.\<close>

definition dangling_data :: "service_desc list" where
  "dangling_data = [\<lparr>d_name = ''A'', d_depends_on = [''ghost''], d_health = 0.1\<rparr>]"

section \<open>Construction\<close>

lemma ServiceGraph_empty:
  "ServiceGraph [] = (\<lparr>names = [], depends_on = (\<lambda>n. [])\<rparr>, (\<lambda>n. Service 0))"
  by (simp add: ServiceGraph_def)

section \<open>The sweeps of propagate_health\<close>

lemma sweeps_count_le: "snd (sweeps h cfg g k S) \<le> k"
  by (induction k arbitrary: S) (auto simp: Let_def)

lemma sweep_service_other: "m \<noteq> n \<Longrightarrow> fst (sweep_service h cfg g n Tc) m = fst Tc m"
  by (simp add: sweep_service_def Let_def set_health_def)

lemma sweep_service_flag:
  "snd (sweep_service h cfg g n Tc) \<longleftrightarrow>
     snd Tc \<or> 0.001 < \<bar>health (fst (sweep_service h cfg g n Tc) n) - health (fst Tc n)\<bar>"
  by (simp add: sweep_service_def Let_def set_health_def)

lemma sweep_fold_other:
  "m \<notin> set ns \<Longrightarrow> fst (fold (sweep_service h cfg g) ns Tc) m = fst Tc m"
  by (induction ns arbitrary: Tc) (auto simp: sweep_service_other)

lemma sweep_fold_flag:
  "distinct ns \<Longrightarrow>
   snd (fold (sweep_service h cfg g) ns Tc) \<longleftrightarrow>
     snd Tc \<or> (\<exists>n\<in>set ns. 0.001 < \<bar>health (fst (fold (sweep_service h cfg g) ns Tc) n) - health (fst Tc n)\<bar>)"
proof (induction ns arbitrary: Tc)
  case Nil
  then show ?case by simp
next
  case (Cons n ns)
  let ?T1 = "sweep_service h cfg g n Tc"
  let ?R = "fold (sweep_service h cfg g) ns ?T1"
  have n_out: "n \<notin> set ns" and d: "distinct ns" using Cons.prems by auto
  have IH: "snd ?R \<longleftrightarrow> snd ?T1 \<or> (\<exists>m\<in>set ns. 0.001 < \<bar>health (fst ?R m) - health (fst ?T1 m)\<bar>)"
    using Cons.IH [OF d] .
  have keep: "fst ?R n = fst ?T1 n" using n_out by (rule sweep_fold_other)
  have same: "\<And>m. m \<in> set ns \<Longrightarrow> fst ?T1 m = fst Tc m"
    using n_out by (intro sweep_service_other) auto
  have flag: "snd ?T1 \<longleftrightarrow> snd Tc \<or> 0.001 < \<bar>health (fst ?T1 n) - health (fst Tc n)\<bar>"
    by (rule sweep_service_flag)
  show ?case
    using IH flag by (auto simp: keep same)
qed

lemma sweep_flag_iff:
  "distinct (names g) \<Longrightarrow>
   snd (sweep h cfg g S) \<longleftrightarrow>
     (\<exists>n\<in>set (names g). 0.001 < \<bar>health (fst (sweep h cfg g S) n) - health (S n)\<bar>)"
  using sweep_fold_flag [of "names g" h cfg g "(S, False)"] by (simp add: sweep_def)


text \<open>
  C9. \<open>propagate_health\<close> performs at most \<open>len(services)\<close> sweeps, whatever the graph
  (no acyclicity is assumed): the loop counts down from the number of services. A sweep
  sets its \<open>changed\<close> flag exactly when it moved some service's health by more than
  0.001, and the loop stops after the first sweep whose flag is not set.
\<close>

theorem propagate_health_sweep_bound:
  "snd (sweeps h cfg g (length (names g)) S) \<le> length (names g) \<and>
   (distinct (names g) \<longrightarrow>
      (snd (sweep h cfg g S) \<longleftrightarrow>
         (\<exists>n\<in>set (names g). 0.001 < \<bar>health (fst (sweep h cfg g S) n) - health (S n)\<bar>))) \<and>
   (\<not> snd (sweep h cfg g S) \<longrightarrow> sweeps h cfg g (Suc k) S = (fst (sweep h cfg g S), 1))"
proof (intro conjI impI)
  show "snd (sweeps h cfg g (length (names g)) S) \<le> length (names g)"
    by (rule sweeps_count_le)
next
  assume "distinct (names g)"
  then show "snd (sweep h cfg g S) \<longleftrightarrow>
      (\<exists>n\<in>set (names g). 0.001 < \<bar>health (fst (sweep h cfg g S) n) - health (S n)\<bar>)"
    by (rule sweep_flag_iff)
next
  assume "\<not> snd (sweep h cfg g S)"
  then show "sweeps h cfg g (Suc k) S = (fst (sweep h cfg g S), 1)"
    by (simp add: Let_def)
qed

theorem propagate_health_sweep_bound_witness:
  "distinct (names (fst (ServiceGraph ring_data))) \<and>
   snd (sweeps hash0 cfg_demo (fst (ServiceGraph ring_data))
          (length (names (fst (ServiceGraph ring_data)))) (snd (ServiceGraph ring_data)))
     \<le> length (names (fst (ServiceGraph ring_data))) \<and>
   snd (sweep hash0 cfg_demo (fst (ServiceGraph ring_data)) (snd (ServiceGraph ring_data))) \<and>
   (\<exists>n\<in>set (names (fst (ServiceGraph ring_data))).
      0.001 < \<bar>health (fst (sweep hash0 cfg_demo (fst (ServiceGraph ring_data))
                               (snd (ServiceGraph ring_data))) n)
                - health (snd (ServiceGraph ring_data) n)\<bar>) \<and>
   \<not> snd (sweep hash0 cfg_demo (fst (ServiceGraph ring_ok_data)) (snd (ServiceGraph ring_ok_data))) \<and>
   sweeps hash0 cfg_demo (fst (ServiceGraph ring_ok_data)) (Suc 1) (snd (ServiceGraph ring_ok_data))
     = (fst (sweep hash0 cfg_demo (fst (ServiceGraph ring_ok_data)) (snd (ServiceGraph ring_ok_data))), 1)"
proof -
  have d: "distinct (names (fst (ServiceGraph ring_data)))"
    by (simp add: ServiceGraph_def ring_data_def add_service_def)
  have c: "snd (sweep hash0 cfg_demo (fst (ServiceGraph ring_data)) (snd (ServiceGraph ring_data)))"
    by (simp add: ServiceGraph_def ring_data_def add_service_def sweep_def sweep_service_def
        total_degradation_def add_degradation_def set_iter_def hash0_def cfg_demo_def
        Service_def set_health_def Let_def)
  have n: "\<not> snd (sweep hash0 cfg_demo (fst (ServiceGraph ring_ok_data)) (snd (ServiceGraph ring_ok_data)))"
    by (simp add: ServiceGraph_def ring_ok_data_def add_service_def sweep_def sweep_service_def
        total_degradation_def add_degradation_def set_iter_def hash0_def cfg_demo_def
        Service_def set_health_def Let_def)
  show ?thesis
    using d c n
      propagate_health_sweep_bound [of hash0 cfg_demo "fst (ServiceGraph ring_data)"
        "snd (ServiceGraph ring_data)" 1]
      propagate_health_sweep_bound [of hash0 cfg_demo "fst (ServiceGraph ring_ok_data)"
        "snd (ServiceGraph ring_ok_data)" 1]
    by blast
qed


section \<open>The empty graph\<close>

lemma run_tick_empty: "names g = [] \<Longrightarrow> run_tick rnd h cfg g s = Inl ValueError"
  by (simp add: run_tick_def detect_failures_def)

text \<open>
  C2. On the empty graph the first tick does not complete: no service is below the
  threshold, so \<open>run_tick\<close> takes the all-healthy branch and calls \<open>min\<close> on an empty
  sequence, which raises \<open>ValueError\<close>; the run of three ticks ends with that error.
\<close>

theorem run_empty_graph_raises:
  "run rnd h cfg_demo (fst (ServiceGraph [])) [] (Simulator (snd (ServiceGraph [])))
     = Inl ValueError"
  by (simp add: run_def run_tick_empty ServiceGraph_empty cfg_demo_def upto.simps)

section \<open>Dangling dependency names in the why-failing query\<close>

text \<open>
  C8. For a failing service whose \<open>depends_on\<close> holds a name that is no service,
  \<open>query_why_failing\<close> raises \<open>KeyError\<close> on that name.
\<close>

theorem query_why_failing_dangling_raises:
  "query_why_failing h cfg_demo (fst (ServiceGraph dangling_data))
     (Simulator (snd (ServiceGraph dangling_data))) ''A'' = Inl (KeyError ''ghost'')"
  by (simp add: query_why_failing_def ServiceGraph_def dangling_data_def add_service_def
      Service_def Simulator_def set_iter_def cfg_demo_def)

section \<open>Monotonicity of the propagation sweeps\<close>

text \<open>The value the propagation rule assigns to a service, and the states in which no
  service with dependencies lies below it.\<close>

definition target :: "(string \<Rightarrow> nat) \<Rightarrow> config \<Rightarrow> graph \<Rightarrow> store \<Rightarrow> string \<Rightarrow> real" where
  "target h cfg g S n = max 0 (initial_health (S n) - total_degradation h cfg g S n)"

definition above_target :: "(string \<Rightarrow> nat) \<Rightarrow> config \<Rightarrow> graph \<Rightarrow> store \<Rightarrow> bool" where
  "above_target h cfg g S =
     list_all (\<lambda>n. depends_on g n = [] \<or> target h cfg g S n \<le> health (S n)) (names g)"

lemma degradation_fold_mono:
  assumes "0 \<le> alpha cfg" and "\<And>m. health (T' m) \<le> health (T m)" and "acc \<le> acc'"
  shows "fold (add_degradation cfg g T) ds acc \<le> fold (add_degradation cfg g T') ds acc'"
  using assms(3)
proof (induction ds arbitrary: acc acc')
  case Nil
  then show ?case by simp
next
  case (Cons d ds)
  have le: "health (T' d) \<le> health (T d)" by (rule assms(2))
  have "add_degradation cfg g T d acc \<le> add_degradation cfg g T' d acc'"
  proof (cases "d \<in> set (names g) \<and> health (T d) < threshold cfg")
    case True
    then have lt': "health (T' d) < threshold cfg" using le by simp
    have "alpha cfg * (threshold cfg - health (T d)) \<le> alpha cfg * (threshold cfg - health (T' d))"
      using assms(1) le by (intro mult_left_mono) simp_all
    then show ?thesis using True lt' Cons.prems by (simp add: add_degradation_def)
  next
    case False
    have "0 \<le> alpha cfg * (threshold cfg - health (T' d))" if "health (T' d) < threshold cfg"
      using assms(1) that by simp
    then show ?thesis using False Cons.prems by (auto simp: add_degradation_def intro: add_increasing2)
  qed
  then show ?case using Cons.IH by simp
qed

lemma total_degradation_mono:
  assumes "0 \<le> alpha cfg" and "\<And>m. health (T' m) \<le> health (T m)"
  shows "total_degradation h cfg g T n \<le> total_degradation h cfg g T' n"
  unfolding total_degradation_def
  using assms(1) by (rule degradation_fold_mono) (simp_all add: assms(2))

lemma degradation_fold_nonneg:
  assumes "0 \<le> alpha cfg" and "0 \<le> acc"
  shows "0 \<le> fold (add_degradation cfg g T) ds acc"
  using assms(2)
proof (induction ds arbitrary: acc)
  case Nil
  then show ?case by simp
next
  case (Cons d ds)
  have "0 \<le> add_degradation cfg g T d acc"
    using assms(1) Cons.prems by (simp add: add_degradation_def)
  then show ?case using Cons.IH by simp
qed

lemma degradation_fold_nonpos:
  assumes "alpha cfg < 0" and "acc \<le> 0"
  shows "fold (add_degradation cfg g T) ds acc \<le> 0"
  using assms(2)
proof (induction ds arbitrary: acc)
  case Nil
  then show ?case by simp
next
  case (Cons d ds)
  have "alpha cfg * (threshold cfg - health (T d)) \<le> 0" if "health (T d) < threshold cfg"
    using assms(1) that by (simp add: mult_le_0_iff)
  then have "add_degradation cfg g T d acc \<le> 0"
    using Cons.prems by (auto simp: add_degradation_def)
  then show ?case using Cons.IH by simp
qed

lemma sweep_service_negative_alpha:
  "alpha cfg < 0 \<Longrightarrow> sweep_service h cfg g n Tc = Tc"
  using degradation_fold_nonpos [of cfg 0 g "fst Tc" "set_iter h (depends_on g n)"]
  by (simp add: sweep_service_def total_degradation_def Let_def)

lemma sweep_fold_negative_alpha:
  "alpha cfg < 0 \<Longrightarrow> fold (sweep_service h cfg g) ns Tc = Tc"
  by (induction ns) (simp_all add: sweep_service_negative_alpha)

lemma sweep_negative_alpha: "alpha cfg < 0 \<Longrightarrow> sweep h cfg g S = (S, False)"
  by (simp add: sweep_def sweep_fold_negative_alpha)

lemma target_antimono:
  assumes "0 \<le> alpha cfg" and "\<And>m. health (T' m) \<le> health (T m)"
    and "initial_health (T' n) = initial_health (T n)"
  shows "target h cfg g T' n \<le> target h cfg g T n"
proof -
  have "total_degradation h cfg g T n \<le> total_degradation h cfg g T' n"
    using assms(1) by (rule total_degradation_mono) (rule assms(2))
  then show ?thesis using assms(3) by (simp add: target_def)
qed

lemma above_targetD:
  "above_target h cfg g T \<Longrightarrow> n \<in> set (names g) \<Longrightarrow> depends_on g n \<noteq> [] \<Longrightarrow>
   target h cfg g T n \<le> health (T n)"
  by (auto simp: above_target_def list_all_iff)

lemma sweep_service_cases:
  "sweep_service h cfg g n (T, c) = (T, c) \<or>
   (depends_on g n \<noteq> [] \<and>
    sweep_service h cfg g n (T, c) = (set_health n (target h cfg g T n) T, True))"
  by (simp add: sweep_service_def target_def Let_def)

lemma sweep_service_step:
  assumes a: "0 \<le> alpha cfg" and inv: "above_target h cfg g T" and n: "n \<in> set (names g)"
  shows "(\<forall>m. health (fst (sweep_service h cfg g n (T, c)) m) \<le> health (T m)) \<and>
         (\<forall>m. initial_health (fst (sweep_service h cfg g n (T, c)) m) = initial_health (T m)) \<and>
         above_target h cfg g (fst (sweep_service h cfg g n (T, c)))"
proof -
  consider (same) "sweep_service h cfg g n (T, c) = (T, c)"
    | (upd) "depends_on g n \<noteq> []"
        "sweep_service h cfg g n (T, c) = (set_health n (target h cfg g T n) T, True)"
    using sweep_service_cases [of h cfg g n T c] by blast
  then show ?thesis
  proof cases
    case same
    then show ?thesis using inv by simp
  next
    case upd
    let ?T' = "set_health n (target h cfg g T n) T"
    have tn: "target h cfg g T n \<le> health (T n)"
      using above_targetD [OF inv n upd(1)] .
    have le: "\<And>m. health (?T' m) \<le> health (T m)"
      using tn by (simp add: set_health_def)
    have init: "\<And>m. initial_health (?T' m) = initial_health (T m)"
      by (simp add: set_health_def)
    have "above_target h cfg g ?T'"
      unfolding above_target_def list_all_iff
    proof (intro ballI)
      fix m assume m: "m \<in> set (names g)"
      show "depends_on g m = [] \<or> target h cfg g ?T' m \<le> health (?T' m)"
      proof (cases "depends_on g m = []")
        case True
        then show ?thesis by simp
      next
        case False
        have t1: "target h cfg g ?T' m \<le> target h cfg g T m"
          by (rule target_antimono [OF a le init])
        have "target h cfg g T m \<le> health (?T' m)"
        proof (cases "m = n")
          case True
          then show ?thesis by (simp add: set_health_def)
        next
          case False
          then have "health (?T' m) = health (T m)" by (simp add: set_health_def)
          then show ?thesis using above_targetD [OF inv m \<open>depends_on g m \<noteq> []\<close>] by simp
        qed
        then show ?thesis using t1 by simp
      qed
    qed
    then show ?thesis using le init upd(2) by simp
  qed
qed

lemma sweep_fold_step:
  assumes a: "0 \<le> alpha cfg"
  shows "above_target h cfg g T \<Longrightarrow> set ns \<subseteq> set (names g) \<Longrightarrow>
     (\<forall>m. health (fst (fold (sweep_service h cfg g) ns (T, c)) m) \<le> health (T m)) \<and>
     (\<forall>m. initial_health (fst (fold (sweep_service h cfg g) ns (T, c)) m) = initial_health (T m)) \<and>
     above_target h cfg g (fst (fold (sweep_service h cfg g) ns (T, c)))"
proof (induction ns arbitrary: T c)
  case Nil
  then show ?case by simp
next
  case (Cons n ns)
  obtain T1 c1 where s1: "sweep_service h cfg g n (T, c) = (T1, c1)"
    by (cases "sweep_service h cfg g n (T, c)")
  have n: "n \<in> set (names g)" and sub: "set ns \<subseteq> set (names g)" using Cons.prems by auto
  have st: "(\<forall>m. health (T1 m) \<le> health (T m)) \<and>
            (\<forall>m. initial_health (T1 m) = initial_health (T m)) \<and> above_target h cfg g T1"
    using sweep_service_step [OF a Cons.prems(1) n, of c] by (simp add: s1)
  have ih: "(\<forall>m. health (fst (fold (sweep_service h cfg g) ns (T1, c1)) m) \<le> health (T1 m)) \<and>
     (\<forall>m. initial_health (fst (fold (sweep_service h cfg g) ns (T1, c1)) m) = initial_health (T1 m)) \<and>
     above_target h cfg g (fst (fold (sweep_service h cfg g) ns (T1, c1)))"
    using Cons.IH [of T1 c1] st sub by blast
  show ?case
    using st ih by (auto simp: s1 intro: order_trans)
qed

lemma sweep_monotone_aux:
  assumes "above_target h cfg g S"
  shows "(\<forall>n. health (fst (sweep h cfg g S) n) \<le> health (S n)) \<and>
         (\<forall>n. initial_health (fst (sweep h cfg g S) n) = initial_health (S n)) \<and>
         above_target h cfg g (fst (sweep h cfg g S))"
proof (cases "0 \<le> alpha cfg")
  case True
  then show ?thesis
    using sweep_fold_step [OF True assms, of "names g" False] by (simp add: sweep_def)
next
  case False
  then show ?thesis using assms by (simp add: sweep_negative_alpha)
qed

lemma sweeps_monotone_aux:
  "above_target h cfg g S \<Longrightarrow>
   (\<forall>n. health (fst (sweeps h cfg g k S) n) \<le> health (S n)) \<and>
   above_target h cfg g (fst (sweeps h cfg g k S))"
proof (induction k arbitrary: S)
  case 0
  then show ?case by simp
next
  case (Suc k)
  have st: "(\<forall>n. health (fst (sweep h cfg g S) n) \<le> health (S n)) \<and>
            above_target h cfg g (fst (sweep h cfg g S))"
    using sweep_monotone_aux [OF Suc.prems] by simp
  have ih: "(\<forall>n. health (fst (sweeps h cfg g k (fst (sweep h cfg g S))) n)
                   \<le> health (fst (sweep h cfg g S) n)) \<and>
            above_target h cfg g (fst (sweeps h cfg g k (fst (sweep h cfg g S))))"
    using Suc.IH st by blast
  show ?case
    using st ih by (auto simp: Let_def intro: order_trans)
qed

lemma baseline_above_target:
  assumes "0 \<le> alpha cfg"
    and "list_all (\<lambda>n. health (S n) = initial_health (S n) \<and> 0 \<le> initial_health (S n)) (names g)"
  shows "above_target h cfg g S"
  unfolding above_target_def list_all_iff
proof (intro ballI)
  fix n assume "n \<in> set (names g)"
  then have e: "health (S n) = initial_health (S n)" and p: "0 \<le> initial_health (S n)"
    using assms(2) by (auto simp: list_all_iff)
  have "0 \<le> total_degradation h cfg g S n"
    unfolding total_degradation_def by (rule degradation_fold_nonneg [OF assms(1)]) simp
  then show "depends_on g n = [] \<or> target h cfg g S n \<le> health (S n)"
    using e p by (simp add: target_def)
qed


text \<open>A generator whose every draw picks index 0 and the delta 0.4; a failing service
  \<open>A\<close> with a healthy dependent \<open>B\<close>; and the state of the first tick after the
  snapshot, the glitch (which hits \<open>B\<close>) and the recovery phase.\<close>

definition rnd_demo :: rng where
  "rnd_demo sd k = (0, 0.4)"

definition cascade_data :: "service_desc list" where
  "cascade_data = [\<lparr>d_name = ''A'', d_depends_on = [], d_health = 0.3\<rparr>,
                   \<lparr>d_name = ''B'', d_depends_on = [''A''], d_health = 0.9\<rparr>]"

definition glitched :: simulator where
  "glitched =
     handle_recovery hash0 cfg_demo (fst (ServiceGraph cascade_data))
       (glitch_phase rnd_demo cfg_demo (fst (ServiceGraph cascade_data))
         (snapshot (fst (ServiceGraph cascade_data))
           (Simulator (snd (ServiceGraph cascade_data)))))"

text \<open>
  C3 (amended). With the baseline \<open>initial_health\<close> held fixed: if before a sweep no
  service that has dependencies lies below \<open>max(0, initial_health - total_degradation)\<close>,
  then the sweep only decreases or preserves the health of every service, leaves the
  baseline untouched, and the same condition holds after it; hence no sweep of
  \<open>propagate_health\<close> started from such a state ever increases a health.
\<close>

theorem sweep_never_increases:
  assumes "above_target h cfg g S"
  shows "(\<forall>n. health (fst (sweep h cfg g S) n) \<le> health (S n)) \<and>
         (\<forall>n. initial_health (fst (sweep h cfg g S) n) = initial_health (S n)) \<and>
         above_target h cfg g (fst (sweep h cfg g S)) \<and>
         (\<forall>k n. health (fst (sweeps h cfg g k S) n) \<le> health (S n))"
  using sweep_monotone_aux [OF assms] sweeps_monotone_aux [OF assms] by blast

lemma cascade_graph:
  "fst (ServiceGraph cascade_data) =
     \<lparr>names = [''A'', ''B''], depends_on = (\<lambda>n. [])(''A'' := [], ''B'' := [''A''])\<rparr>"
  by (simp add: ServiceGraph_def cascade_data_def add_service_def)

lemma cascade_store:
  "snd (ServiceGraph cascade_data) =
     (\<lambda>n. Service 0)(''A'' := Service 0.3, ''B'' := Service 0.9)"
  by (simp add: ServiceGraph_def cascade_data_def add_service_def)

theorem sweep_never_increases_witness:
  "above_target hash0 cfg_demo (fst (ServiceGraph cascade_data)) (snd (ServiceGraph cascade_data)) \<and>
   (\<forall>n. health (fst (sweep hash0 cfg_demo (fst (ServiceGraph cascade_data))
                        (snd (ServiceGraph cascade_data))) n)
          \<le> health (snd (ServiceGraph cascade_data) n)) \<and>
   health (fst (sweep hash0 cfg_demo (fst (ServiceGraph cascade_data))
                  (snd (ServiceGraph cascade_data))) ''B'') = 0.8"
proof -
  have a: "above_target hash0 cfg_demo (fst (ServiceGraph cascade_data)) (snd (ServiceGraph cascade_data))"
    by (simp add: cascade_graph cascade_store above_target_def target_def total_degradation_def
        add_degradation_def set_iter_def Service_def cfg_demo_def)
  have b: "health (fst (sweep hash0 cfg_demo (fst (ServiceGraph cascade_data))
                  (snd (ServiceGraph cascade_data))) ''B'') = 0.8"
    by (simp add: cascade_graph cascade_store sweep_def sweep_service_def total_degradation_def
        add_degradation_def set_iter_def Service_def cfg_demo_def set_health_def Let_def)
  show ?thesis
    using a b sweep_never_increases [OF a] by blast
qed

lemma glitched_store:
  "services glitched =
     (\<lambda>n. Service 0)(''A'' := Service 0.3, ''B'' := (Service 0.9)\<lparr>health := 0.5\<rparr>)"
  by (simp add: glitched_def cascade_graph cascade_store handle_recovery_def cfg_demo_def
      glitch_phase_def apply_glitch_def eligible_def snapshot_def snapshot_service_def
      Simulator_def Service_def rnd_demo_def set_health_def Let_def fun_upd_twist)

text \<open>
  C3 as stated fails: the baseline is taken before the glitch, so after the glitch has
  lowered \<open>B\<close> from 0.9 to 0.5 the sweep sets \<open>B\<close> to 0.9 - 0.1 = 0.8, above its
  current health, with the baseline unchanged.
\<close>

theorem sweep_increases_after_glitch:
  "health (services glitched ''B'') = 0.5 \<and>
   health (fst (sweep hash0 cfg_demo (fst (ServiceGraph cascade_data)) (services glitched)) ''B'') = 0.8 \<and>
   initial_health (fst (sweep hash0 cfg_demo (fst (ServiceGraph cascade_data)) (services glitched)) ''B'')
     = initial_health (services glitched ''B'')"
  by (simp add: glitched_store cascade_graph sweep_def sweep_service_def total_degradation_def
        add_degradation_def set_iter_def Service_def cfg_demo_def set_health_def Let_def)

section \<open>Invariants of the recovery ripple\<close>

lemma ripple_loop_Nil: "r_queue r = [] \<Longrightarrow> ripple_loop h cfg g r = r"
  by (subst ripple_loop.simps) simp

lemma ripple_loop_Cons:
  "r_queue r = current # rest \<Longrightarrow>
   ripple_loop h cfg g r =
     ripple_loop h cfg g (fold (ripple_step h cfg g) (rev_adj h g current) (r\<lparr>r_queue := rest\<rparr>))"
  by (subst ripple_loop.simps) simp

lemma ripple_fold_invariant:
  assumes step: "\<And>n r. n \<in> set (names g) \<Longrightarrow> I r \<Longrightarrow> I (ripple_step h cfg g n r)"
  shows "set ds \<subseteq> set (names g) \<Longrightarrow> I r \<Longrightarrow> I (fold (ripple_step h cfg g) ds r)"
proof (induction ds arbitrary: r)
  case Nil
  then show ?case by simp
next
  case (Cons d ds)
  have "I (ripple_step h cfg g d r)" using Cons.prems by (intro step) simp_all
  then show ?case using Cons.IH Cons.prems by simp
qed

lemma ripple_loop_invariant:
  assumes step: "\<And>n r. n \<in> set (names g) \<Longrightarrow> I r \<Longrightarrow> I (ripple_step h cfg g n r)"
    and pop: "\<And>r c rest. I r \<Longrightarrow> r_queue r = c # rest \<Longrightarrow> I (r\<lparr>r_queue := rest\<rparr>)"
    and init: "I r"
  shows "I (ripple_loop h cfg g r)"
  using assms
proof (induction h cfg g r rule: ripple_loop.induct)
  case (1 h cfg g r)
  show ?case
  proof (cases "r_queue r")
    case Nil
    then show ?thesis using "1.prems"(3) by (simp add: ripple_loop_Nil)
  next
    case (Cons current rest)
    let ?r' = "fold (ripple_step h cfg g) (rev_adj h g current) (r\<lparr>r_queue := rest\<rparr>)"
    have sub: "set (rev_adj h g current) \<subseteq> set (names g)"
      by (auto dest: rev_adj_names)
    have "I (r\<lparr>r_queue := rest\<rparr>)" using "1.prems"(2,3) Cons by blast
    then have "I ?r'"
      using ripple_fold_invariant [of g I h cfg, OF "1.prems"(1) sub] by blast
    then have "I (ripple_loop h cfg g ?r')"
      using "1.IH" [OF Cons] "1.prems"(1,2) by blast
    then show ?thesis by (simp add: ripple_loop_Cons [OF Cons])
  qed
qed

lemma ripple_store_invariant:
  assumes b: "\<And>n S. n \<in> set (names g) \<Longrightarrow> health (S n) < heal_to cfg \<Longrightarrow> Q S \<Longrightarrow> Q (bump cfg n S)"
    and init: "Q (r_store r)"
  shows "Q (r_store (ripple_loop h cfg g r))"
proof (rule ripple_loop_invariant [where I = "\<lambda>r. Q (r_store r)"])
  fix n and r :: ripple assume "n \<in> set (names g)" and "Q (r_store r)"
  then show "Q (r_store (ripple_step h cfg g n r))"
    using b by (simp add: ripple_step_def Let_def)
next
  fix r :: ripple and c rest assume "Q (r_store r)"
  then show "Q (r_store (r\<lparr>r_queue := rest\<rparr>))" by simp
next
  show "Q (r_store r)" by (rule init)
qed

text \<open>The same for \<open>propagate_recovery\<close>.\<close>

lemma propagate_recovery_invariant:
  assumes "\<And>n S. n \<in> set (names g) \<Longrightarrow> health (S n) < heal_to cfg \<Longrightarrow> Q S \<Longrightarrow> Q (bump cfg n S)"
    and "Q (services s)"
  shows "Q (services (propagate_recovery h cfg g a s))"
  unfolding propagate_recovery_def Let_def
  using ripple_store_invariant [of g cfg Q _ h, OF assms(1)] assms(2) by simp

text \<open>The shape of the loop state: the visited names are the start followed by the bumped
  names, without repetition, and every queued name is visited.\<close>

definition ripple_shape :: "string \<Rightarrow> ripple \<Rightarrow> bool" where
  "ripple_shape a r =
     (r_visited r = a # map fst (r_recovered r) \<and> distinct (r_visited r) \<and>
      set (r_queue r) \<subseteq> set (r_visited r))"

lemma ripple_step_cases:
  "ripple_step h cfg g n r = r \<or>
   (n \<notin> set (r_visited r) \<and> all_deps_healthy h cfg g (r_store r) n \<and>
    health (r_store r n) < heal_to cfg \<and>
    r_visited (ripple_step h cfg g n r) = r_visited r @ [n] \<and>
    r_queue (ripple_step h cfg g n r) = r_queue r @ [n] \<and>
    r_recovered (ripple_step h cfg g n r) =
      r_recovered r @ [(n, health (r_store r n), health (bump cfg n (r_store r) n))])"
  by (simp add: ripple_step_def Let_def)

lemma ripple_step_shape:
  assumes "ripple_shape a r"
  shows "ripple_shape a (ripple_step h cfg g n r)"
proof -
  consider (same) "ripple_step h cfg g n r = r"
    | (upd) "n \<notin> set (r_visited r)"
        "r_visited (ripple_step h cfg g n r) = r_visited r @ [n]"
        "r_queue (ripple_step h cfg g n r) = r_queue r @ [n]"
        "r_recovered (ripple_step h cfg g n r) =
           r_recovered r @ [(n, health (r_store r n), health (bump cfg n (r_store r) n))]"
    using ripple_step_cases [of h cfg g n r] by blast
  then show ?thesis
  proof cases
    case same
    then show ?thesis using assms by simp
  next
    case upd
    have v: "r_visited r = a # map fst (r_recovered r)" and d: "distinct (r_visited r)"
      and q: "set (r_queue r) \<subseteq> set (r_visited r)"
      using assms unfolding ripple_shape_def by blast+
    have v': "r_visited (ripple_step h cfg g n r) = a # map fst (r_recovered (ripple_step h cfg g n r))"
      by (simp add: upd(2,4) v)
    have d': "distinct (r_visited (ripple_step h cfg g n r))"
      using d upd(1) by (simp add: upd(2))
    have q': "set (r_queue (ripple_step h cfg g n r)) \<subseteq> set (r_visited (ripple_step h cfg g n r))"
      using q by (auto simp: upd(2,3))
    show ?thesis unfolding ripple_shape_def using v' d' q' by blast
  qed
qed

lemma ripple_pop_shape:
  assumes "ripple_shape a r" and "r_queue r = c # rest"
  shows "ripple_shape a (r\<lparr>r_queue := rest\<rparr>)"
proof -
  have v: "r_visited r = a # map fst (r_recovered r)" and d: "distinct (r_visited r)"
    and q: "set (r_queue r) \<subseteq> set (r_visited r)"
    using assms(1) unfolding ripple_shape_def by blast+
  have "set rest \<subseteq> set (r_visited r)"
    using q assms(2) by auto
  then show ?thesis unfolding ripple_shape_def using v d by simp
qed

lemma ripple_loop_shape:
  "ripple_shape a r \<Longrightarrow> ripple_shape a (ripple_loop h cfg g r)"
  by (rule ripple_loop_invariant [where I = "ripple_shape a"])
     (auto intro: ripple_step_shape ripple_pop_shape)

lemma ripple_loop_queue_empty: "r_queue (ripple_loop h cfg g r) = []"
proof (induction h cfg g r rule: ripple_loop.induct)
  case (1 h cfg g r)
  show ?case
  proof (cases "r_queue r")
    case Nil
    then show ?thesis by (simp add: ripple_loop_Nil)
  next
    case (Cons current rest)
    then show ?thesis using "1.IH" [OF Cons] by (simp add: ripple_loop_Cons [OF Cons])
  qed
qed

text \<open>
  C4 (amended). In one invocation of \<open>propagate_recovery\<close> every name enters the
  visited set at most once, and the names that enter it are exactly the healed service
  followed by the dependents that received a bump, in the order of the bumps: one step
  of the inner loop either bumps the dependent, marks it visited and queues it, all
  three together and only for a dependent not visited before that passes the bump
  test, or changes nothing. The traversal therefore continues through bumped dependents
  only, and ends with an empty queue.
\<close>

theorem propagate_recovery_visits_bumped_once:
  "distinct (r_visited (ripple_loop h cfg g
       \<lparr>r_store = S, r_visited = [a], r_queue = [a], r_recovered = []\<rparr>)) \<and>
   r_visited (ripple_loop h cfg g
       \<lparr>r_store = S, r_visited = [a], r_queue = [a], r_recovered = []\<rparr>)
     = a # map fst (r_recovered (ripple_loop h cfg g
       \<lparr>r_store = S, r_visited = [a], r_queue = [a], r_recovered = []\<rparr>)) \<and>
   r_queue (ripple_loop h cfg g
       \<lparr>r_store = S, r_visited = [a], r_queue = [a], r_recovered = []\<rparr>) = [] \<and>
   (r_visited (ripple_step h cfg g n r) = r_visited r @ [n] \<and>
    r_queue (ripple_step h cfg g n r) = r_queue r @ [n] \<and>
    r_recovered (ripple_step h cfg g n r) =
      r_recovered r @ [(n, health (r_store r n), health (bump cfg n (r_store r) n))] \<and>
    n \<notin> set (r_visited r) \<and> all_deps_healthy h cfg g (r_store r) n \<and>
    health (r_store r n) < heal_to cfg
    \<or> ripple_step h cfg g n r = r)"
proof -
  let ?r0 = "\<lparr>r_store = S, r_visited = [a], r_queue = [a], r_recovered = []\<rparr>"
  have "ripple_shape a ?r0" by (simp add: ripple_shape_def)
  then have sh: "ripple_shape a (ripple_loop h cfg g ?r0)" by (rule ripple_loop_shape)
  have st: "(r_visited (ripple_step h cfg g n r) = r_visited r @ [n] \<and>
    r_queue (ripple_step h cfg g n r) = r_queue r @ [n] \<and>
    r_recovered (ripple_step h cfg g n r) =
      r_recovered r @ [(n, health (r_store r n), health (bump cfg n (r_store r) n))] \<and>
    n \<notin> set (r_visited r) \<and> all_deps_healthy h cfg g (r_store r) n \<and>
    health (r_store r n) < heal_to cfg
    \<or> ripple_step h cfg g n r = r)"
    using ripple_step_cases [of h cfg g n r] by blast
  show ?thesis
    using sh st ripple_loop_queue_empty [of h cfg g ?r0]
    unfolding ripple_shape_def by blast
qed


text \<open>Unfolding the loop on an explicit state, for evaluation.\<close>

lemma ripple_loop_unfold:
  "ripple_loop h cfg g \<lparr>r_store = S, r_visited = v, r_queue = q, r_recovered = rc\<rparr> =
     (case q of
        [] \<Rightarrow> \<lparr>r_store = S, r_visited = v, r_queue = [], r_recovered = rc\<rparr>
      | current # rest \<Rightarrow>
          ripple_loop h cfg g
            (fold (ripple_step h cfg g) (rev_adj h g current)
               \<lparr>r_store = S, r_visited = v, r_queue = rest, r_recovered = rc\<rparr>))"
  by (subst ripple_loop.simps) (simp split: list.splits)

text \<open>\<open>C\<close> depends on \<open>B\<close>, \<open>B\<close> on \<open>A\<close>; \<open>A\<close> has just been healed to 0.9, \<open>B\<close> is
  above \<open>heal_to\<close>, \<open>C\<close> is low.\<close>

definition cfg_heal :: config where
  "cfg_heal = \<lparr>ticks = 3, threshold = 0.5, alpha = 0.5, seed = 42,
                cooldown = Some 2, heal_to = 0.9\<rparr>"

definition chain_data :: "service_desc list" where
  "chain_data = [\<lparr>d_name = ''A'', d_depends_on = [], d_health = 0.9\<rparr>,
                 \<lparr>d_name = ''B'', d_depends_on = [''A''], d_health = 0.95\<rparr>,
                 \<lparr>d_name = ''C'', d_depends_on = [''B''], d_health = 0.3\<rparr>]"

lemma chain_graph:
  "fst (ServiceGraph chain_data) =
     \<lparr>names = [''A'', ''B'', ''C''],
      depends_on = (\<lambda>n. [])(''A'' := [], ''B'' := [''A''], ''C'' := [''B''])\<rparr>"
  by (simp add: ServiceGraph_def chain_data_def add_service_def)

lemma chain_store:
  "snd (ServiceGraph chain_data) =
     (\<lambda>n. Service 0)(''A'' := Service 0.9, ''B'' := Service 0.95, ''C'' := Service 0.3)"
  by (simp add: ServiceGraph_def chain_data_def add_service_def)

text \<open>
  C4 as stated fails: \<open>B\<close> is a dependent of the healed \<open>A\<close> met for the first time,
  and it receives no bump (its health is not below \<open>heal_to\<close>); the traversal does not
  continue through it: the visited set stays \<open>{A}\<close>, and \<open>C\<close>, a dependent of \<open>B\<close>
  that passes the bump test, keeps its health 0.3.
\<close>

theorem propagate_recovery_stops_at_unbumped:
  "''B'' \<in> set (rev_adj hash0 (fst (ServiceGraph chain_data)) ''A'') \<and>
   ''C'' \<in> set (rev_adj hash0 (fst (ServiceGraph chain_data)) ''B'') \<and>
   all_deps_healthy hash0 cfg_heal (fst (ServiceGraph chain_data)) (snd (ServiceGraph chain_data)) ''C'' \<and>
   health (snd (ServiceGraph chain_data) ''C'') < heal_to cfg_heal \<and>
   r_visited (ripple_loop hash0 cfg_heal (fst (ServiceGraph chain_data))
      \<lparr>r_store = snd (ServiceGraph chain_data), r_visited = [''A''], r_queue = [''A''],
       r_recovered = []\<rparr>) = [''A''] \<and>
   health (services (propagate_recovery hash0 cfg_heal (fst (ServiceGraph chain_data)) ''A''
                       (Simulator (snd (ServiceGraph chain_data)))) ''C'') = 0.3"
  by (simp add: chain_graph chain_store rev_adj_def set_iter_def hash0_def all_deps_healthy_def
      cfg_heal_def Service_def propagate_recovery_def Simulator_def ripple_loop_unfold
      ripple_step_def Let_def)

section \<open>The recovery scheduler\<close>

text \<open>A service on which \<open>handle_recovery\<close> has nothing to do: its timer is not 0, and
  it is not a failed service with a positive timer.\<close>

definition settled :: "service \<Rightarrow> bool" where
  "settled sv = (recovery_timer sv \<noteq> 0 \<and> \<not> (is_failed sv \<and> 0 < recovery_timer sv))"

definition healed :: "config \<Rightarrow> service \<Rightarrow> bool" where
  "healed cfg sv = (health sv = heal_to cfg \<and> \<not> is_failed sv \<and> recovery_timer sv = - 1)"

lemma healed_settled: "healed cfg sv \<Longrightarrow> settled sv"
  by (simp add: healed_def settled_def)

lemma timer_step_settled: "settled (fst St n) \<Longrightarrow> timer_step n St = St"
  by (cases St) (auto simp: timer_step_def settled_def Let_def)

lemma timer_fold_settled:
  "\<forall>n\<in>set ns. settled (fst St n) \<Longrightarrow> fold timer_step ns St = St"
  by (induction ns) (simp_all add: timer_step_settled)

lemma handle_recovery_settled:
  assumes "\<forall>n\<in>set (names g). settled (services s n)"
  shows "handle_recovery h cfg g s = s"
proof (cases "cooldown cfg")
  case None
  then show ?thesis by (simp add: handle_recovery_def)
next
  case (Some c)
  have "fold timer_step (names g) (services s, []) = (services s, [])"
    using assms by (intro timer_fold_settled) simp
  then show ?thesis using Some by (simp add: handle_recovery_def)
qed

lemma timer_step_other: "m \<noteq> n \<Longrightarrow> fst (timer_step n St) m = fst St m"
  by (simp add: timer_step_def Let_def)

lemma timer_step_mono: "set (snd St) \<subseteq> set (snd (timer_step n St))"
  by (auto simp: timer_step_def Let_def)

lemma timer_step_low:
  assumes "\<not> (is_failed (fst St m) \<and> 1 < recovery_timer (fst St m))"
  shows "\<not> (is_failed (fst (timer_step n St) m) \<and> 1 < recovery_timer (fst (timer_step n St) m))"
  using assms by (cases "m = n") (auto simp: timer_step_def Let_def)

lemma timer_step_here:
  assumes "\<not> (is_failed (fst St n) \<and> 1 < recovery_timer (fst St n))"
  shows "n \<in> set (snd (timer_step n St)) \<or> settled (fst (timer_step n St) n)"
  using assms by (auto simp: timer_step_def Let_def settled_def)

lemma timer_step_keeps:
  assumes "m \<in> set (snd St) \<or> settled (fst St m)"
  shows "m \<in> set (snd (timer_step n St)) \<or> settled (fst (timer_step n St) m)"
proof (cases "m \<in> set (snd St)")
  case True
  then show ?thesis using timer_step_mono [of St n] by blast
next
  case False
  then have s: "settled (fst St m)" using assms by blast
  show ?thesis
  proof (cases "m = n")
    case True
    then show ?thesis using s by (simp add: timer_step_settled)
  next
    case False
    then show ?thesis using s by (simp add: timer_step_other)
  qed
qed

lemma timer_fold_collects:
  assumes "\<forall>m\<in>A. \<not> (is_failed (fst St m) \<and> 1 < recovery_timer (fst St m))"
    and "\<forall>m\<in>D. m \<in> set (snd St) \<or> settled (fst St m)"
    and "set ns \<subseteq> A"
  shows "\<forall>m\<in>D \<union> set ns.
           m \<in> set (snd (fold timer_step ns St)) \<or> settled (fst (fold timer_step ns St) m)"
  using assms
proof (induction ns arbitrary: St D)
  case Nil
  then show ?case by simp
next
  case (Cons n ns)
  have nA: "n \<in> A" and sub: "set ns \<subseteq> A" using Cons.prems(3) by auto
  have low: "\<forall>m\<in>A. \<not> (is_failed (fst (timer_step n St) m) \<and> 1 < recovery_timer (fst (timer_step n St) m))"
    using Cons.prems(1) timer_step_low by blast
  have col: "\<forall>m\<in>insert n D. m \<in> set (snd (timer_step n St)) \<or> settled (fst (timer_step n St) m)"
    using Cons.prems(1,2) nA timer_step_here [of St n] timer_step_keeps [of _ St n] by blast
  have "\<forall>m\<in>insert n D \<union> set ns.
           m \<in> set (snd (fold timer_step ns (timer_step n St))) \<or>
           settled (fst (fold timer_step ns (timer_step n St)) m)"
    using Cons.IH [OF low col sub] .
  then show ?case by simp
qed

text \<open>The ripple keeps a settled service settled and a healed service healed.\<close>

lemma bump_settled: "settled (S m) \<Longrightarrow> settled (bump cfg n S m)"
  by (cases "m = n") (auto simp: bump_def Let_def set_health_def settled_def)

lemma bump_healed: "health (S n) < heal_to cfg \<Longrightarrow> healed cfg (S m) \<Longrightarrow> healed cfg (bump cfg n S m)"
  by (cases "m = n") (auto simp: bump_def Let_def set_health_def healed_def)

lemma heal_service_here: "healed cfg (services (heal_service h cfg g n s) n)"
  unfolding heal_service_def
proof (rule propagate_recovery_invariant [where Q = "\<lambda>S. healed cfg (S n)"])
  fix m S assume "health (S m) < heal_to cfg" and "healed cfg (S n)"
  then show "healed cfg (bump cfg m S n)" by (rule bump_healed)
next
  show "healed cfg (services (s\<lparr>services := (services s)
             (n := (services s n)\<lparr>health := heal_to cfg, is_failed := False,
                                  recovery_timer := - 1\<rparr>),
          log := log s @ [Heal_line n (heal_to cfg) (tick s)]\<rparr>) n)"
    by (simp add: healed_def)
qed

lemma heal_service_healed:
  assumes "healed cfg (services s m)"
  shows "healed cfg (services (heal_service h cfg g n s) m)"
proof (cases "m = n")
  case True
  then show ?thesis by (simp add: heal_service_here)
next
  case False
  show ?thesis
    unfolding heal_service_def
  proof (rule propagate_recovery_invariant [where Q = "\<lambda>S. healed cfg (S m)"])
    fix k S assume "health (S k) < heal_to cfg" and "healed cfg (S m)"
    then show "healed cfg (bump cfg k S m)" by (rule bump_healed)
  next
    show "healed cfg (services (s\<lparr>services := (services s)
             (n := (services s n)\<lparr>health := heal_to cfg, is_failed := False,
                                  recovery_timer := - 1\<rparr>),
          log := log s @ [Heal_line n (heal_to cfg) (tick s)]\<rparr>) m)"
      using assms False by simp
  qed
qed

lemma heal_service_settled:
  assumes "settled (services s m)"
  shows "settled (services (heal_service h cfg g n s) m)"
proof (cases "m = n")
  case True
  then show ?thesis using heal_service_here [of cfg h g n s] by (simp add: healed_settled)
next
  case False
  show ?thesis
    unfolding heal_service_def
  proof (rule propagate_recovery_invariant [where Q = "\<lambda>S. settled (S m)"])
    fix k S assume "settled (S m)"
    then show "settled (bump cfg k S m)" by (rule bump_settled)
  next
    show "settled (services (s\<lparr>services := (services s)
             (n := (services s n)\<lparr>health := heal_to cfg, is_failed := False,
                                  recovery_timer := - 1\<rparr>),
          log := log s @ [Heal_line n (heal_to cfg) (tick s)]\<rparr>) m)"
      using assms False by simp
  qed
qed

lemma heal_fold_healed:
  "healed cfg (services s m) \<or> m \<in> set hl \<Longrightarrow>
   healed cfg (services (fold (heal_service h cfg g) hl s) m)"
proof (induction hl arbitrary: s)
  case Nil
  then show ?case by simp
next
  case (Cons n hl)
  have "healed cfg (services (heal_service h cfg g n s) m) \<or> m \<in> set hl"
    using Cons.prems heal_service_here [of cfg h g n s] heal_service_healed [of cfg s m h g n]
    by auto
  then show ?case using Cons.IH by simp
qed

lemma heal_fold_settled:
  "settled (services s m) \<or> m \<in> set hl \<Longrightarrow>
   settled (services (fold (heal_service h cfg g) hl s) m)"
proof (induction hl arbitrary: s)
  case Nil
  then show ?case by simp
next
  case (Cons n hl)
  have "settled (services (heal_service h cfg g n s) m) \<or> m \<in> set hl"
    using Cons.prems heal_service_here [of cfg h g n s] heal_service_settled [of s m h cfg g n]
      healed_settled [of cfg]
    by auto
  then show ?case using Cons.IH by simp
qed

lemma handle_recovery_settles:
  assumes c: "cooldown cfg \<noteq> None"
    and low: "\<forall>m\<in>set (names g). \<not> (is_failed (services s m) \<and> 1 < recovery_timer (services s m))"
    and n: "n \<in> set (names g)"
  shows "settled (services (handle_recovery h cfg g s) n)"
proof -
  let ?St = "fold timer_step (names g) (services s, [])"
  have "\<forall>m\<in>{} \<union> set (names g). m \<in> set (snd ?St) \<or> settled (fst ?St m)"
    by (rule timer_fold_collects [where A = "set (names g)"]) (use low in simp_all)
  then have "settled (services (s\<lparr>services := fst ?St\<rparr>) n) \<or> n \<in> set (snd ?St)"
    using n by auto
  then have "settled (services (fold (heal_service h cfg g) (snd ?St) (s\<lparr>services := fst ?St\<rparr>)) n)"
    by (rule heal_fold_settled)
  then show ?thesis using c by (auto simp: handle_recovery_def Let_def)
qed


text \<open>One service \<open>X\<close> that failed with a cooldown of 2: its timer is 2.\<close>

definition waiting :: simulator where
  "waiting = Simulator ((\<lambda>n. Service 0)
     (''X'' := \<lparr>health = 0.2, initial_health = 0.2, is_failed = True,
               failed_at_tick = 1, recovery_timer = 2\<rparr>))"

definition graph_X :: graph where
  "graph_X = \<lparr>names = [''X''], depends_on = (\<lambda>n. [])\<rparr>"

text \<open>
  C5 (amended). When the cooldown is not configured, or no failed service has a recovery
  timer above 1, running \<open>handle_recovery\<close> twice in a row leaves the state exactly as
  after the first run.
\<close>

theorem handle_recovery_idempotent:
  assumes "cooldown cfg = None \<or>
           list_all (\<lambda>n. \<not> (is_failed (services s n) \<and> 1 < recovery_timer (services s n)))
             (names g)"
  shows "handle_recovery h cfg g (handle_recovery h cfg g s) = handle_recovery h cfg g s"
proof (cases "cooldown cfg")
  case None
  then show ?thesis by (simp add: handle_recovery_def)
next
  case (Some c)
  then have low: "\<forall>m\<in>set (names g).
      \<not> (is_failed (services s m) \<and> 1 < recovery_timer (services s m))"
    using assms by (simp add: list_all_iff)
  have "\<forall>n\<in>set (names g). settled (services (handle_recovery h cfg g s) n)"
    using handle_recovery_settles [of cfg g s _ h] Some low by simp
  then show ?thesis by (rule handle_recovery_settled)
qed

theorem handle_recovery_idempotent_witness:
  "list_all (\<lambda>n. \<not> (is_failed (services (handle_recovery hash0 cfg_heal graph_X waiting) n) \<and>
                    1 < recovery_timer (services (handle_recovery hash0 cfg_heal graph_X waiting) n)))
     (names graph_X) \<and>
   handle_recovery hash0 cfg_heal graph_X
     (handle_recovery hash0 cfg_heal graph_X (handle_recovery hash0 cfg_heal graph_X waiting))
   = handle_recovery hash0 cfg_heal graph_X (handle_recovery hash0 cfg_heal graph_X waiting)"
proof -
  have l: "list_all (\<lambda>n. \<not> (is_failed (services (handle_recovery hash0 cfg_heal graph_X waiting) n) \<and>
                    1 < recovery_timer (services (handle_recovery hash0 cfg_heal graph_X waiting) n)))
     (names graph_X)"
    by (simp add: handle_recovery_def cfg_heal_def graph_X_def waiting_def Simulator_def
        timer_step_def Let_def)
  show ?thesis
    using l handle_recovery_idempotent [of cfg_heal "handle_recovery hash0 cfg_heal graph_X waiting"
        graph_X hash0]
    by blast
qed

text \<open>
  C5 as stated fails: the first run takes the timer of \<open>X\<close> from 2 to 1; the second run
  takes it to 0 and heals \<open>X\<close>.
\<close>

theorem handle_recovery_twice_differs:
  "recovery_timer (services (handle_recovery hash0 cfg_heal graph_X waiting) ''X'') = 1 \<and>
   health (services (handle_recovery hash0 cfg_heal graph_X waiting) ''X'') = 0.2 \<and>
   is_failed (services (handle_recovery hash0 cfg_heal graph_X waiting) ''X'') \<and>
   recovery_timer (services (handle_recovery hash0 cfg_heal graph_X
      (handle_recovery hash0 cfg_heal graph_X waiting)) ''X'') = - 1 \<and>
   health (services (handle_recovery hash0 cfg_heal graph_X
      (handle_recovery hash0 cfg_heal graph_X waiting)) ''X'') = 0.9 \<and>
   \<not> is_failed (services (handle_recovery hash0 cfg_heal graph_X
      (handle_recovery hash0 cfg_heal graph_X waiting)) ''X'')"
  by (simp add: handle_recovery_def cfg_heal_def graph_X_def waiting_def Simulator_def
      timer_step_def heal_service_def propagate_recovery_def ripple_loop_unfold rev_adj_def
      set_iter_def Let_def)

section \<open>Cooldown 0\<close>

lemma snapshot_fold_fields:
  "health (services (fold snapshot_service ns s) m) = health (services s m) \<and>
   is_failed (services (fold snapshot_service ns s) m) = is_failed (services s m) \<and>
   recovery_timer (services (fold snapshot_service ns s) m) = recovery_timer (services s m) \<and>
   tick (fold snapshot_service ns s) = tick s"
  by (induction ns arbitrary: s) (simp_all add: snapshot_service_def)

lemma snapshot_fields:
  "health (services (snapshot g s) m) = health (services s m) \<and>
   is_failed (services (snapshot g s) m) = is_failed (services s m) \<and>
   recovery_timer (services (snapshot g s) m) = recovery_timer (services s m)"
  using snapshot_fold_fields [of "names g" s m] by (simp add: snapshot_def)

lemma apply_glitch_fields:
  "is_failed (services (snd (apply_glitch rnd cfg g s)) m) = is_failed (services s m) \<and>
   recovery_timer (services (snd (apply_glitch rnd cfg g s)) m) = recovery_timer (services s m)"
  by (simp add: apply_glitch_def Let_def set_health_def)

lemma glitch_phase_services:
  "services (glitch_phase rnd cfg g s) = services (snd (apply_glitch rnd cfg g s))"
  by (simp add: glitch_phase_def Let_def split: option.splits)

lemma glitch_phase_fields:
  "is_failed (services (glitch_phase rnd cfg g s) m) = is_failed (services s m) \<and>
   recovery_timer (services (glitch_phase rnd cfg g s) m) = recovery_timer (services s m)"
  by (simp add: glitch_phase_services apply_glitch_fields)

lemma perform_rca_services: "services (perform_rca h g F s) = services s"
  by (simp add: perform_rca_def Let_def split: list.splits)

lemma mark_failed_fold:
  "n \<in> set ns \<or>
     (is_failed (services s n) \<and>
      recovery_timer (services s n) = (case cooldown cfg of None \<Rightarrow> - 1 | Some c \<Rightarrow> c)) \<Longrightarrow>
   is_failed (services (fold (mark_failed cfg) ns s) n) \<and>
   recovery_timer (services (fold (mark_failed cfg) ns s) n)
     = (case cooldown cfg of None \<Rightarrow> - 1 | Some c \<Rightarrow> c)"
proof (induction ns arbitrary: s)
  case Nil
  then show ?case by simp
next
  case (Cons m ns)
  have "n \<in> set ns \<or>
     (is_failed (services (mark_failed cfg m s) n) \<and>
      recovery_timer (services (mark_failed cfg m s) n)
        = (case cooldown cfg of None \<Rightarrow> - 1 | Some c \<Rightarrow> c))"
    using Cons.prems by (cases "m = n") (auto simp: mark_failed_def)
  then show ?case using Cons.IH by simp
qed

lemma member_nonempty: "x \<in> set xs \<Longrightarrow> xs \<noteq> []"
  by auto

lemma mark_failed_fold_tick: "tick (fold (mark_failed cfg) ns s) = tick s"
  by (induction ns arbitrary: s) (simp_all add: mark_failed_def)

lemma detect_failures_newly_failed:
  assumes "n \<in> set (names g)" and "health (services s n) < threshold cfg"
    and "\<not> is_failed (services s n)"
  shows "\<exists>s1. detect_failures h cfg g s = Inr s1 \<and> is_failed (services s1 n) \<and>
           recovery_timer (services s1 n) = (case cooldown cfg of None \<Rightarrow> - 1 | Some c \<Rightarrow> c) \<and>
           tick s1 = tick s"
proof -
  let ?F = "filter (\<lambda>n. health (services s n) < threshold cfg) (names g)"
  let ?N = "filter (\<lambda>n. \<not> is_failed (services s n)) ?F"
  let ?s1 = "fold (mark_failed cfg) ?N s"
  have nN: "n \<in> set ?N" using assms by simp
  have nF: "n \<in> set ?F" using assms by simp
  have ne: "?N \<noteq> []" using nN by (rule member_nonempty)
  have fe: "?F \<noteq> []" using nF by (rule member_nonempty)
  have m: "is_failed (services ?s1 n) \<and>
       recovery_timer (services ?s1 n) = (case cooldown cfg of None \<Rightarrow> - 1 | Some c \<Rightarrow> c)"
    by (rule mark_failed_fold) (use nN in blast)
  have t: "tick ?s1 = tick s" by (rule mark_failed_fold_tick)
  have d: "detect_failures h cfg g s = Inr (perform_rca h g ?F ?s1)"
    using ne fe by (simp add: detect_failures_def Let_def)
  have "tick (perform_rca h g ?F ?s1) = tick ?s1"
    by (simp add: perform_rca_def Let_def split: list.splits)
  then show ?thesis using d m t by (simp add: perform_rca_services)
qed


lemma timer_step_zero:
  assumes "recovery_timer (fst St n) = 0"
  shows "recovery_timer (fst (timer_step m St) n) = 0 \<and>
         (m = n \<or> n \<in> set (snd St) \<longrightarrow> n \<in> set (snd (timer_step m St)))"
  using assms by (cases "m = n") (auto simp: timer_step_def Let_def)

lemma timer_fold_zero:
  "recovery_timer (fst St n) = 0 \<Longrightarrow> n \<in> set ns \<or> n \<in> set (snd St) \<Longrightarrow>
   recovery_timer (fst (fold timer_step ns St) n) = 0 \<and> n \<in> set (snd (fold timer_step ns St))"
proof (induction ns arbitrary: St)
  case Nil
  then show ?case by simp
next
  case (Cons m ns)
  have z: "recovery_timer (fst (timer_step m St) n) = 0"
    using timer_step_zero [OF Cons.prems(1)] by blast
  have "n \<in> set ns \<or> n \<in> set (snd (timer_step m St))"
    using timer_step_zero [OF Cons.prems(1), of m] Cons.prems(2) by auto
  then show ?case using Cons.IH [OF z] by simp
qed

lemma handle_recovery_heals_zero:
  assumes "cooldown cfg \<noteq> None" and "n \<in> set (names g)"
    and "recovery_timer (services s n) = 0"
  shows "healed cfg (services (handle_recovery h cfg g s) n)"
proof -
  let ?St = "fold timer_step (names g) (services s, [])"
  have "n \<in> set (snd ?St)"
    using timer_fold_zero [of "(services s, [])" n "names g"] assms(2,3) by simp
  then have "healed cfg (services (fold (heal_service h cfg g) (snd ?St) (s\<lparr>services := fst ?St\<rparr>)) n)"
    by (intro heal_fold_healed) simp
  then show ?thesis using assms(1) by (auto simp: handle_recovery_def Let_def)
qed

text \<open>The state in which the recovery phase of the next tick starts: \<open>run\<close> sets the
  tick and logs it, \<open>run_tick\<close> takes the snapshot and applies the glitch.\<close>

definition next_tick_before_recovery :: "rng \<Rightarrow> config \<Rightarrow> graph \<Rightarrow> simulator \<Rightarrow> simulator" where
  "next_tick_before_recovery rnd cfg g s =
     glitch_phase rnd cfg g
       (snapshot g (s\<lparr>tick := tick s + 1, log := log s @ [Tick_line (tick s + 1)]\<rparr>))"

definition cfg_zero :: config where
  "cfg_zero = \<lparr>ticks = 3, threshold = 0.5, alpha = 0.5, seed = 42,
                cooldown = Some 0, heal_to = 0.9\<rparr>"

text \<open>\<open>X\<close> below the threshold and not yet marked as failed.\<close>

definition unmarked :: simulator where
  "unmarked = Simulator ((\<lambda>n. Service 0)(''X'' := Service 0.2))"

text \<open>
  C10. With \<open>cooldown\<close> 0, a service that newly fails in the last phase of a tick leaves
  that tick with \<open>recovery_timer\<close> 0. In the next tick it still has timer 0 when the
  recovery phase starts, the timer loop leaves the timer at 0 (no decrement) and
  collects the service, and after \<open>handle_recovery\<close> its health is \<open>heal_to\<close>, its
  \<open>is_failed\<close> flag is cleared and its timer is -1.
\<close>

theorem cooldown_zero_heals_next_tick:
  assumes "cooldown cfg = Some 0" and "n \<in> set (names g)"
    and "health (services s n) < threshold cfg" and "\<not> is_failed (services s n)"
  shows "\<exists>s1. detect_failures h cfg g s = Inr s1 \<and>
           is_failed (services s1 n) \<and> recovery_timer (services s1 n) = 0 \<and>
           recovery_timer (services (next_tick_before_recovery rnd cfg g s1) n) = 0 \<and>
           recovery_timer (fst (fold timer_step (names g)
              (services (next_tick_before_recovery rnd cfg g s1), [])) n) = 0 \<and>
           n \<in> set (snd (fold timer_step (names g)
              (services (next_tick_before_recovery rnd cfg g s1), []))) \<and>
           health (services (handle_recovery h cfg g (next_tick_before_recovery rnd cfg g s1)) n)
             = heal_to cfg \<and>
           \<not> is_failed (services (handle_recovery h cfg g (next_tick_before_recovery rnd cfg g s1)) n) \<and>
           recovery_timer (services (handle_recovery h cfg g (next_tick_before_recovery rnd cfg g s1)) n)
             = - 1"
proof -
  obtain s1 where d: "detect_failures h cfg g s = Inr s1" and f: "is_failed (services s1 n)"
    and t: "recovery_timer (services s1 n) = 0"
    using detect_failures_newly_failed [OF assms(2,3,4), of h] assms(1) by auto
  let ?s' = "next_tick_before_recovery rnd cfg g s1"
  have t': "recovery_timer (services ?s' n) = 0"
    using t by (simp add: next_tick_before_recovery_def glitch_phase_fields snapshot_fields)
  have z: "recovery_timer (fst (fold timer_step (names g) (services ?s', [])) n) = 0 \<and>
           n \<in> set (snd (fold timer_step (names g) (services ?s', [])))"
    using timer_fold_zero [of "(services ?s', [])" n "names g"] t' assms(2) by simp
  have "healed cfg (services (handle_recovery h cfg g ?s') n)"
    by (rule handle_recovery_heals_zero) (use assms(1,2) t' in simp_all)
  then show ?thesis using d f t t' z unfolding healed_def by blast
qed


theorem cooldown_zero_heals_next_tick_witness:
  "cooldown cfg_zero = Some 0 \<and> ''X'' \<in> set (names graph_X) \<and>
   health (services unmarked ''X'') < threshold cfg_zero \<and>
   \<not> is_failed (services unmarked ''X'') \<and>
   (\<exists>s1. detect_failures hash0 cfg_zero graph_X unmarked = Inr s1 \<and>
           is_failed (services s1 ''X'') \<and> recovery_timer (services s1 ''X'') = 0 \<and>
           recovery_timer (services (next_tick_before_recovery rnd_demo cfg_zero graph_X s1) ''X'') = 0 \<and>
           recovery_timer (fst (fold timer_step (names graph_X)
              (services (next_tick_before_recovery rnd_demo cfg_zero graph_X s1), [])) ''X'') = 0 \<and>
           ''X'' \<in> set (snd (fold timer_step (names graph_X)
              (services (next_tick_before_recovery rnd_demo cfg_zero graph_X s1), []))) \<and>
           health (services (handle_recovery hash0 cfg_zero graph_X
                     (next_tick_before_recovery rnd_demo cfg_zero graph_X s1)) ''X'')
             = heal_to cfg_zero \<and>
           \<not> is_failed (services (handle_recovery hash0 cfg_zero graph_X
                     (next_tick_before_recovery rnd_demo cfg_zero graph_X s1)) ''X'') \<and>
           recovery_timer (services (handle_recovery hash0 cfg_zero graph_X
                     (next_tick_before_recovery rnd_demo cfg_zero graph_X s1)) ''X'')
             = - 1)"
proof -
  have a: "cooldown cfg_zero = Some 0" by (simp add: cfg_zero_def)
  have b: "''X'' \<in> set (names graph_X)" by (simp add: graph_X_def)
  have c: "health (services unmarked ''X'') < threshold cfg_zero"
    by (simp add: unmarked_def Simulator_def Service_def cfg_zero_def)
  have d: "\<not> is_failed (services unmarked ''X'')"
    by (simp add: unmarked_def Simulator_def Service_def)
  show ?thesis
    using a b c d cooldown_zero_heals_next_tick [OF a b c d, of hash0 rnd_demo] by blast
qed

section \<open>Root-cause analysis\<close>












lemma perform_rca_incident:
  assumes "sorted_desc (radius_len (map (\<lambda>r. (r, get_blast_radius h g r))
              (root_causes_of h g (services s) F))) (root_causes_of h g (services s) F)
           = first # others"
  shows "incident_log (perform_rca h g F s) = incident_log s @
            [\<lparr>inc_tick = tick s, roots = root_causes_of h g (services s) F,
              impacted = map (\<lambda>r. (r, set_iter h (get_blast_radius h g r)))
                           (root_causes_of h g (services s) F),
              priority = first\<rparr>]"
  unfolding perform_rca_def Let_def assms list.case by simp








section \<open>Reproducibility of the incident ledger\<close>

lemma blast_loop_unfold:
  "blast_loop h g \<lparr>b_visited = v, b_impacted = i, b_q = q\<rparr> =
     (case q of
        [] \<Rightarrow> \<lparr>b_visited = v, b_impacted = i, b_q = []\<rparr>
      | cur # rest \<Rightarrow>
          blast_loop h g
            (fold blast_step (rev_adj h g cur) \<lparr>b_visited = v, b_impacted = i, b_q = rest\<rparr>))"
  by (subst blast_loop.simps) (simp split: list.splits)

text \<open>\<open>B\<close> and \<open>C\<close> depend on \<open>A\<close>, which starts below the threshold; one tick.\<close>

definition star_data :: "service_desc list" where
  "star_data = [\<lparr>d_name = ''A'', d_depends_on = [], d_health = 0.1\<rparr>,
                \<lparr>d_name = ''B'', d_depends_on = [''A''], d_health = 0.9\<rparr>,
                \<lparr>d_name = ''C'', d_depends_on = [''A''], d_health = 0.9\<rparr>]"

definition cfg_once :: config where
  "cfg_once = \<lparr>ticks = 1, threshold = 0.5, alpha = 0.5, seed = 42,
                cooldown = None, heal_to = 0.9\<rparr>"

definition star_graph :: graph where
  "star_graph = \<lparr>names = [''A'', ''B'', ''C''],
     depends_on = (\<lambda>n. [])(''A'' := [], ''B'' := [''A''], ''C'' := [''A''])\<rparr>"

lemma star_graph_eq: "fst (ServiceGraph star_data) = star_graph"
  by (simp add: ServiceGraph_def star_data_def add_service_def star_graph_def)

lemma star_store:
  "snd (ServiceGraph star_data) =
     (\<lambda>n. Service 0)(''A'' := Service 0.1, ''B'' := Service 0.9, ''C'' := Service 0.9)"
  by (simp add: ServiceGraph_def star_data_def add_service_def)

lemma star_radius_hash0: "get_blast_radius hash0 star_graph ''A'' = [''B'', ''C'']"
  by (simp add: get_blast_radius_def blast_loop_unfold rev_adj_def set_iter_def hash0_def
      star_graph_def blast_step_def)

lemma star_radius_hash1: "get_blast_radius hash1 star_graph ''A'' = [''C'', ''B'']"
  by (simp add: get_blast_radius_def blast_loop_unfold rev_adj_def set_iter_def hash1_def
      star_graph_def blast_step_def)

text \<open>A single newly failed service without dependencies is the only root.\<close>

lemma perform_rca_single:
  assumes "depends_on g n = []"
  shows "incident_log (perform_rca h g [n] s) = incident_log s @
           [\<lparr>inc_tick = tick s, roots = [n],
             impacted = [(n, set_iter h (get_blast_radius h g n))], priority = n\<rparr>]"
proof -
  have r: "root_causes_of h g (services s) [n] = [n]"
    by (simp add: root_causes_of_def is_root_def assms set_iter_def)
  have "sorted_desc (radius_len (map (\<lambda>r. (r, get_blast_radius h g r))
              (root_causes_of h g (services s) [n]))) (root_causes_of h g (services s) [n])
           = n # []"
    unfolding r by (simp add: sorted_desc_def)
  then have "incident_log (perform_rca h g [n] s) = incident_log s @
            [\<lparr>inc_tick = tick s, roots = root_causes_of h g (services s) [n],
              impacted = map (\<lambda>r. (r, set_iter h (get_blast_radius h g r)))
                           (root_causes_of h g (services s) [n]),
              priority = n\<rparr>]"
    by (rule perform_rca_incident)
  then show ?thesis unfolding r by simp
qed

lemma detect_failures_single:
  assumes f: "filter (\<lambda>m. health (services s m) < threshold cfg) (names g) = [n]"
    and nf: "\<not> is_failed (services s n)"
    and d: "depends_on g n = []"
  shows "map_sum id incident_log (detect_failures h cfg g s) =
           Inr (incident_log s @
             [\<lparr>inc_tick = tick s, roots = [n],
               impacted = [(n, set_iter h (get_blast_radius h g n))], priority = n\<rparr>])"
proof -
  have "detect_failures h cfg g s = Inr (perform_rca h g [n] (mark_failed cfg n s))"
    unfolding detect_failures_def Let_def f using nf by simp
  moreover have "incident_log (mark_failed cfg n s) = incident_log s" "tick (mark_failed cfg n s) = tick s"
    by (simp_all add: mark_failed_def)
  ultimately show ?thesis
    using perform_rca_single [OF d, of h "mark_failed cfg n s"] by simp
qed

definition star_pre :: "(string \<Rightarrow> nat) \<Rightarrow> log_line list \<Rightarrow> simulator" where
  "star_pre h L =
     propagate_health h cfg_once star_graph
       (handle_recovery h cfg_once star_graph
         (glitch_phase rnd_demo cfg_once star_graph
           (snapshot star_graph
              ((Simulator (snd (ServiceGraph star_data)))\<lparr>tick := 1, log := L\<rparr>))))"

lemma star_glitched:
  "services (handle_recovery h cfg_once star_graph
         (glitch_phase rnd_demo cfg_once star_graph
           (snapshot star_graph
              ((Simulator (snd (ServiceGraph star_data)))\<lparr>tick := 1, log := L\<rparr>)))) =
     (\<lambda>n. Service 0)(''A'' := Service 0.1, ''B'' := (Service 0.9)\<lparr>health := 0.5\<rparr>,
        ''C'' := Service 0.9)"
  by (simp add: star_store star_graph_def handle_recovery_def cfg_once_def
      glitch_phase_def apply_glitch_def eligible_def snapshot_def snapshot_service_def
      Simulator_def Service_def rnd_demo_def set_health_def Let_def fun_upd_twist)

lemma star_swept:
  "fst (sweeps h cfg_once star_graph (length (names star_graph))
     ((\<lambda>n. Service 0)(''A'' := Service 0.1, ''B'' := (Service 0.9)\<lparr>health := 0.5\<rparr>,
        ''C'' := Service 0.9))) =
   (\<lambda>n. Service 0)(''A'' := Service 0.1, ''B'' := (Service 0.9)\<lparr>health := 0.7\<rparr>,
        ''C'' := (Service 0.9)\<lparr>health := 0.7\<rparr>)"
  by (simp add: star_graph_def cfg_once_def sweep_def sweep_service_def total_degradation_def
      add_degradation_def set_iter_def Service_def set_health_def Let_def fun_upd_twist
      eval_nat_numeral)

lemma propagate_health_services:
  "services (propagate_health h cfg g s) = fst (sweeps h cfg g (length (names g)) (services s))"
  by (simp add: propagate_health_def)

lemma star_pre_services:
  "services (star_pre h L) =
   (\<lambda>n. Service 0)(''A'' := Service 0.1, ''B'' := (Service 0.9)\<lparr>health := 0.7\<rparr>,
        ''C'' := (Service 0.9)\<lparr>health := 0.7\<rparr>)"
proof -
  have "services (star_pre h L) =
     fst (sweeps h cfg_once star_graph (length (names star_graph))
       (services (handle_recovery h cfg_once star_graph
         (glitch_phase rnd_demo cfg_once star_graph
           (snapshot star_graph
              ((Simulator (snd (ServiceGraph star_data)))\<lparr>tick := 1, log := L\<rparr>))))))"
    by (simp only: star_pre_def propagate_health_services)
  then show ?thesis unfolding star_glitched star_swept .
qed

lemma star_pre_ledger: "incident_log (star_pre h L) = [] \<and> tick (star_pre h L) = 1"
  by (simp add: star_pre_def propagate_health_def handle_recovery_def cfg_once_def
      glitch_phase_def apply_glitch_def Let_def snapshot_def star_graph_def snapshot_service_def
      Simulator_def split: option.splits)

lemma star_pre_incident:
  "map_sum id incident_log (detect_failures h cfg_once star_graph (star_pre h L)) =
     Inr [\<lparr>inc_tick = 1, roots = [''A''],
           impacted = [(''A'', set_iter h (get_blast_radius h star_graph ''A''))],
           priority = ''A''\<rparr>]"
proof -
  have f: "filter (\<lambda>m. health (services (star_pre h L) m) < threshold cfg_once)
             (names star_graph) = [''A'']"
    unfolding star_pre_services by (simp add: star_graph_def cfg_once_def Service_def)
  have nf: "\<not> is_failed (services (star_pre h L) ''A'')"
    unfolding star_pre_services by (simp add: Service_def)
  have d: "depends_on star_graph ''A'' = []" by (simp add: star_graph_def)
  show ?thesis
    using detect_failures_single [OF f nf d, of h] by (simp add: star_pre_ledger)
qed

lemma run_one_tick:
  assumes "ticks cfg = 1"
  shows "map_sum id incident_log (run rnd h cfg g [] s) =
         map_sum id incident_log
           (run_tick rnd h cfg g
              (s\<lparr>tick := 1,
                 log := log s @ [Title_line, Run_line (ticks cfg) (threshold cfg) (seed cfg),
                                 Start_line, Boot_line (length (names g)), Tick_line 1]\<rparr>))"
proof -
  have u: "[1..ticks cfg] = [1]" unfolding assms by (simp add: upto.simps)
  show ?thesis
    unfolding run_def Let_def u
    by (simp split: sum.splits)
qed

lemma star_run_incident:
  "map_sum id incident_log
     (run rnd_demo h cfg_once (fst (ServiceGraph star_data)) []
        (Simulator (snd (ServiceGraph star_data)))) =
   Inr [\<lparr>inc_tick = 1, roots = [''A''],
         impacted = [(''A'', set_iter h (get_blast_radius h star_graph ''A''))],
         priority = ''A''\<rparr>]"
proof -
  have t: "ticks cfg_once = 1" by (simp add: cfg_once_def)
  have r: "\<And>L. run_tick rnd_demo h cfg_once star_graph
             ((Simulator (snd (ServiceGraph star_data)))\<lparr>tick := 1, log := L\<rparr>)
           = detect_failures h cfg_once star_graph (star_pre h L)"
    by (simp only: run_tick_def star_pre_def)
  show ?thesis
    unfolding star_graph_eq run_one_tick [OF t] r by (rule star_pre_incident)
qed

text \<open>
  C6. Two runs on the same topology, configuration, seed and random draws do not always
  give the same incident ledger: the \<open>impacted\<close> list of an incident is \<open>list(radius)\<close>
  of a set of names, whose order follows the string hash of the interpreter process. On
  the star graph the single incident of the one-tick run lists \<open>B, C\<close> under one hash
  and \<open>C, B\<close> under another.
\<close>

theorem incident_ledger_depends_on_hash:
  "map_sum id incident_log
     (run rnd_demo hash0 cfg_once (fst (ServiceGraph star_data)) []
        (Simulator (snd (ServiceGraph star_data)))) =
   Inr [\<lparr>inc_tick = 1, roots = [''A''], impacted = [(''A'', [''B'', ''C''])],
         priority = ''A''\<rparr>] \<and>
   map_sum id incident_log
     (run rnd_demo hash1 cfg_once (fst (ServiceGraph star_data)) []
        (Simulator (snd (ServiceGraph star_data)))) =
   Inr [\<lparr>inc_tick = 1, roots = [''A''], impacted = [(''A'', [''C'', ''B''])],
         priority = ''A''\<rparr>]"
  by (simp add: star_run_incident star_radius_hash0 star_radius_hash1 set_iter_def
      hash0_def hash1_def)

section \<open>The range of health\<close>

definition in_range :: "service \<Rightarrow> bool" where
  "in_range v \<longleftrightarrow> 0 \<le> health v \<and> health v \<le> 1"

text \<open>In range, with a baseline of at most 1: what the propagation sweep preserves.\<close>

definition sound :: "service \<Rightarrow> bool" where
  "sound v \<longleftrightarrow> in_range v \<and> initial_health v \<le> 1"

lemma ServiceGraph_fold_range:
  "list_all (\<lambda>d. 0 \<le> d_health d \<and> d_health d \<le> 1) ds \<Longrightarrow> in_range (snd gs n) \<Longrightarrow>
   in_range (snd (fold add_service ds gs) n)"
proof (induction ds arbitrary: gs)
  case Nil
  then show ?case by simp
next
  case (Cons d ds)
  have "in_range (snd (add_service d gs) n)"
    using Cons.prems by (simp add: add_service_def Let_def Service_def in_range_def)
  moreover have "list_all (\<lambda>d. 0 \<le> d_health d \<and> d_health d \<le> 1) ds"
    using Cons.prems by simp
  ultimately show ?case using Cons.IH by simp
qed

lemma ServiceGraph_range:
  "list_all (\<lambda>d. 0 \<le> d_health d \<and> d_health d \<le> 1) ds \<Longrightarrow>
   in_range (snd (ServiceGraph ds) n)"
  unfolding ServiceGraph_def
  by (rule ServiceGraph_fold_range) (simp_all add: in_range_def Service_def)

lemma snapshot_fold_baseline:
  "initial_health (services (fold snapshot_service ns s) n) =
     (if n \<in> set ns then health (services s n) else initial_health (services s n))"
  by (induction ns arbitrary: s) (simp_all add: snapshot_service_def)

lemma snapshot_sound:
  assumes "n \<in> set (names g)" and "in_range (services s n)"
  shows "sound (services (snapshot g s) n)"
proof -
  have "health (services (snapshot g s) n) = health (services s n)"
    using snapshot_fields [of g s n] by simp
  moreover have "initial_health (services (snapshot g s) n) = health (services s n)"
    using assms(1) by (simp add: snapshot_def snapshot_fold_baseline)
  ultimately show ?thesis using assms(2) by (simp add: sound_def in_range_def)
qed

lemma glitch_phase_sound:
  assumes "0 \<le> snd (rnd (seed cfg) (draws s))" and "sound (services s n)"
  shows "sound (services (glitch_phase rnd cfg g s) n)"
  using assms
  by (auto simp: glitch_phase_services apply_glitch_def Let_def set_health_def
      sound_def in_range_def)

lemma timer_fold_health:
  "health (fst (fold timer_step ns St) n) = health (fst St n) \<and>
   initial_health (fst (fold timer_step ns St) n) = initial_health (fst St n)"
  by (induction ns arbitrary: St) (simp_all add: timer_step_def Let_def)

lemma bump_sound:
  assumes "health (S n) < heal_to cfg" and "sound (S m)"
  shows "sound (bump cfg n S m)"
proof (cases "m = n")
  case True
  have "0 \<le> health (S n)" using assms(2) True by (simp add: sound_def in_range_def)
  then have "0 \<le> health (S n) + (heal_to cfg - health (S n)) * 0.5"
    using assms(1) by simp
  then show ?thesis
    using assms(2) True by (simp add: bump_def Let_def set_health_def sound_def in_range_def)
next
  case False
  then show ?thesis using assms(2) by (simp add: bump_def Let_def set_health_def)
qed

lemma heal_service_sound:
  assumes "0 \<le> heal_to cfg" and "heal_to cfg \<le> 1" and "sound (services s m)"
  shows "sound (services (heal_service h cfg g n s) m)"
  unfolding heal_service_def
proof (rule propagate_recovery_invariant [where Q = "\<lambda>S. sound (S m)"])
  fix k S assume "health (S k) < heal_to cfg" and "sound (S m)"
  then show "sound (bump cfg k S m)" by (rule bump_sound)
next
  show "sound (services (s\<lparr>services := (services s)
             (n := (services s n)\<lparr>health := heal_to cfg, is_failed := False,
                                  recovery_timer := - 1\<rparr>),
          log := log s @ [Heal_line n (heal_to cfg) (tick s)]\<rparr>) m)"
    using assms by (cases "m = n") (simp_all add: sound_def in_range_def)
qed

lemma heal_fold_sound:
  assumes "0 \<le> heal_to cfg" and "heal_to cfg \<le> 1"
  shows "sound (services s m) \<Longrightarrow> sound (services (fold (heal_service h cfg g) ns s) m)"
proof (induction ns arbitrary: s)
  case Nil
  then show ?case by simp
next
  case (Cons n ns)
  have "sound (services (heal_service h cfg g n s) m)"
    using assms Cons.prems by (rule heal_service_sound)
  then show ?case using Cons.IH by simp
qed

lemma handle_recovery_sound:
  assumes "0 \<le> heal_to cfg" and "heal_to cfg \<le> 1" and "sound (services s m)"
  shows "sound (services (handle_recovery h cfg g s) m)"
proof (cases "cooldown cfg")
  case None
  then show ?thesis using assms(3) by (simp add: handle_recovery_def)
next
  case (Some c)
  have "sound (services (s\<lparr>services := fst (fold timer_step (names g) (services s, []))\<rparr>) m)"
    using assms(3) timer_fold_health [of "names g" "(services s, [])" m]
    by (simp add: sound_def in_range_def)
  then have "sound (services (fold (heal_service h cfg g)
                (snd (fold timer_step (names g) (services s, [])))
                (s\<lparr>services := fst (fold timer_step (names g) (services s, []))\<rparr>)) m)"
    by (rule heal_fold_sound [OF assms(1,2)])
  then show ?thesis using Some by (simp add: handle_recovery_def Let_def)
qed

lemma sweep_service_sound:
  assumes "sound (fst Sc n)"
  shows "sound (fst (sweep_service h cfg g m Sc) n)"
  using assms
  by (auto simp: sweep_service_def Let_def set_health_def sound_def in_range_def)

lemma sweep_fold_sound:
  "sound (fst Sc n) \<Longrightarrow> sound (fst (fold (sweep_service h cfg g) ns Sc) n)"
  by (induction ns arbitrary: Sc) (simp_all add: sweep_service_sound)

lemma sweeps_sound:
  "sound (S n) \<Longrightarrow> sound (fst (sweeps h cfg g k S) n)"
proof (induction k arbitrary: S)
  case 0
  then show ?case by simp
next
  case (Suc k)
  have "sound (fst (sweep h cfg g S) n)"
    unfolding sweep_def using Suc.prems by (simp add: sweep_fold_sound)
  then show ?case using Suc.IH by (simp add: Let_def)
qed

lemma propagate_health_sound:
  "sound (services s n) \<Longrightarrow> sound (services (propagate_health h cfg g s) n)"
  by (simp add: propagate_health_services sweeps_sound)

lemma mark_failed_fold_health:
  "health (services (fold (mark_failed cfg) ns s) n) = health (services s n) \<and>
   initial_health (services (fold (mark_failed cfg) ns s) n) = initial_health (services s n)"
  by (induction ns arbitrary: s) (simp_all add: mark_failed_def)

lemma detect_failures_sound:
  assumes "sound (services s n)" and "detect_failures h cfg g s = Inr s'"
  shows "sound (services s' n)"
proof -
  have "health (services s' n) = health (services s n) \<and>
        initial_health (services s' n) = initial_health (services s n)"
    using assms(2)
    by (auto simp: detect_failures_def Let_def perform_rca_services mark_failed_fold_health
        split: if_splits list.splits)
  then show ?thesis using assms(1) by (simp add: sound_def in_range_def)
qed

lemma tick_phases_sound:
  assumes "0 \<le> heal_to cfg" and "heal_to cfg \<le> 1"
    and "\<forall>k. 0 \<le> snd (rnd (seed cfg) k)"
    and "n \<in> set (names g)" and "in_range (services s n)"
  shows "sound (services (snapshot g s) n)"
    and "sound (services (glitch_phase rnd cfg g (snapshot g s)) n)"
    and "sound (services (handle_recovery h cfg g (glitch_phase rnd cfg g (snapshot g s))) n)"
    and "sound (services (propagate_health h cfg g
            (handle_recovery h cfg g (glitch_phase rnd cfg g (snapshot g s)))) n)"
proof -
  show a: "sound (services (snapshot g s) n)"
    using assms(4,5) by (rule snapshot_sound)
  have "0 \<le> snd (rnd (seed cfg) (draws (snapshot g s)))" using assms(3) by blast
  then show b: "sound (services (glitch_phase rnd cfg g (snapshot g s)) n)"
    using a by (rule glitch_phase_sound)
  show c: "sound (services (handle_recovery h cfg g (glitch_phase rnd cfg g (snapshot g s))) n)"
    using assms(1,2) b by (rule handle_recovery_sound)
  show "sound (services (propagate_health h cfg g
            (handle_recovery h cfg g (glitch_phase rnd cfg g (snapshot g s)))) n)"
    using c by (rule propagate_health_sound)
qed

lemma run_tick_range:
  assumes "0 \<le> heal_to cfg" and "heal_to cfg \<le> 1"
    and "\<forall>k. 0 \<le> snd (rnd (seed cfg) k)"
    and "n \<in> set (names g)" and "in_range (services s n)"
    and "run_tick rnd h cfg g s = Inr s'"
  shows "in_range (services s' n)"
proof -
  have "sound (services (propagate_health h cfg g
            (handle_recovery h cfg g (glitch_phase rnd cfg g (snapshot g s)))) n)"
    by (rule tick_phases_sound(4) [where rnd = rnd and cfg = cfg, OF assms(1-5)])
  moreover have "detect_failures h cfg g (propagate_health h cfg g
            (handle_recovery h cfg g (glitch_phase rnd cfg g (snapshot g s)))) = Inr s'"
    using assms(6) by (simp add: run_tick_def)
  ultimately have "sound (services s' n)" by (rule detect_failures_sound)
  then show ?thesis by (simp add: sound_def)
qed

lemma run_ticks_range:
  assumes "0 \<le> heal_to cfg" and "heal_to cfg \<le> 1"
    and "\<forall>k. 0 \<le> snd (rnd (seed cfg) k)"
    and "n \<in> set (names g)"
  shows "in_range (services s n) \<Longrightarrow> run_ticks rnd h cfg g ts s = Inr s' \<Longrightarrow>
         in_range (services s' n)"
proof (induction ts arbitrary: s)
  case Nil
  then show ?case by simp
next
  case (Cons t ts)
  obtain s1 where t: "run_tick rnd h cfg g (s\<lparr>tick := t, log := log s @ [Tick_line t]\<rparr>) = Inr s1"
    and r: "run_ticks rnd h cfg g ts s1 = Inr s'"
    using Cons.prems(2) by (auto split: sum.splits)
  have ir: "in_range (services (s\<lparr>tick := t, log := log s @ [Tick_line t]\<rparr>) n)"
    using Cons.prems(1) by simp
  have "in_range (services s1 n)"
    by (rule run_tick_range [where rnd = rnd and cfg = cfg, OF assms ir t])
  then show ?case using r by (rule Cons.IH)
qed

lemma run_range:
  assumes "0 \<le> heal_to cfg" and "heal_to cfg \<le> 1"
    and "\<forall>k. 0 \<le> snd (rnd (seed cfg) k)"
    and "n \<in> set (names g)" and "in_range (services s n)"
    and "run rnd h cfg g cycles s = Inr s'"
  shows "in_range (services s' n)"
proof -
  obtain s1 where r: "run_ticks rnd h cfg g [1..ticks cfg]
        (s\<lparr>log := log s @
                 [Title_line, Run_line (ticks cfg) (threshold cfg) (seed cfg), Start_line]
                 @ map Warn_cycle cycles @ [Boot_line (length (names g))]\<rparr>) = Inr s1"
    and e: "s' = s1\<lparr>log := log s1 @ [End_line]\<rparr>"
    using assms(6) by (auto simp: run_def Let_def split: sum.splits)
  have ir: "in_range (services (s\<lparr>log := log s @
                 [Title_line, Run_line (ticks cfg) (threshold cfg) (seed cfg), Start_line]
                 @ map Warn_cycle cycles @ [Boot_line (length (names g))]\<rparr>) n)"
    using assms(5) by simp
  have "in_range (services s1 n)"
    by (rule run_ticks_range [where rnd = rnd and cfg = cfg, OF assms(1-4) ir r])
  then show ?thesis by (simp add: e)
qed

text \<open>
  C1 (amended). Let \<open>heal_to\<close> lie in [0,1] and let every glitch delta be non-negative
  (\<open>random.uniform(0.2, 0.5)\<close>). If every input health lies in [0,1], then every health
  stored by the constructor lies in [0,1]. For a service of the graph whose health lies
  in [0,1] at the start of a tick, the health lies in [0,1] after the snapshot, after
  the glitch, after the recovery phase (heal and ripple bumps), after the propagation,
  and at the end of the tick; hence also after any sequence of ticks and at the end of a
  run, whenever these complete.
\<close>

theorem health_stays_in_range:
  assumes "0 \<le> heal_to cfg" and "heal_to cfg \<le> 1"
    and "\<forall>k. 0 \<le> snd (rnd (seed cfg) k)"
  shows "(list_all (\<lambda>d. 0 \<le> d_health d \<and> d_health d \<le> 1) services_data \<longrightarrow>
            in_range (snd (ServiceGraph services_data) n)) \<and>
         (n \<in> set (names g) \<and> in_range (services s n) \<longrightarrow>
            in_range (services (snapshot g s) n) \<and>
            in_range (services (glitch_phase rnd cfg g (snapshot g s)) n) \<and>
            in_range (services (handle_recovery h cfg g
                        (glitch_phase rnd cfg g (snapshot g s))) n) \<and>
            in_range (services (propagate_health h cfg g
                        (handle_recovery h cfg g (glitch_phase rnd cfg g (snapshot g s)))) n) \<and>
            (\<forall>s'. run_tick rnd h cfg g s = Inr s' \<longrightarrow> in_range (services s' n)) \<and>
            (\<forall>ts s'. run_ticks rnd h cfg g ts s = Inr s' \<longrightarrow> in_range (services s' n)) \<and>
            (\<forall>s'. run rnd h cfg g cycles s = Inr s' \<longrightarrow> in_range (services s' n)))"
proof (intro conjI impI allI)
  assume "list_all (\<lambda>d. 0 \<le> d_health d \<and> d_health d \<le> 1) services_data"
  then show "in_range (snd (ServiceGraph services_data) n)" by (rule ServiceGraph_range)
next
  assume "n \<in> set (names g) \<and> in_range (services s n)"
  then have a: "n \<in> set (names g)" "in_range (services s n)" by simp_all
  show "in_range (services (snapshot g s) n)"
    using tick_phases_sound(1) [where rnd = rnd and cfg = cfg, OF assms a]
    by (simp add: sound_def)
next
  assume "n \<in> set (names g) \<and> in_range (services s n)"
  then have a: "n \<in> set (names g)" "in_range (services s n)" by simp_all
  show "in_range (services (glitch_phase rnd cfg g (snapshot g s)) n)"
    using tick_phases_sound(2) [where rnd = rnd and cfg = cfg, OF assms a]
    by (simp add: sound_def)
next
  assume "n \<in> set (names g) \<and> in_range (services s n)"
  then have a: "n \<in> set (names g)" "in_range (services s n)" by simp_all
  show "in_range (services (handle_recovery h cfg g
                        (glitch_phase rnd cfg g (snapshot g s))) n)"
    using tick_phases_sound(3) [where rnd = rnd and cfg = cfg, OF assms a]
    by (simp add: sound_def)
next
  assume "n \<in> set (names g) \<and> in_range (services s n)"
  then have a: "n \<in> set (names g)" "in_range (services s n)" by simp_all
  show "in_range (services (propagate_health h cfg g
                        (handle_recovery h cfg g (glitch_phase rnd cfg g (snapshot g s)))) n)"
    using tick_phases_sound(4) [where rnd = rnd and cfg = cfg, OF assms a]
    by (simp add: sound_def)
next
  fix s'
  assume "n \<in> set (names g) \<and> in_range (services s n)"
  then have a: "n \<in> set (names g)" "in_range (services s n)" by simp_all
  assume r: "run_tick rnd h cfg g s = Inr s'"
  show "in_range (services s' n)"
    by (rule run_tick_range [where rnd = rnd and cfg = cfg, OF assms a r])
next
  fix ts s'
  assume "n \<in> set (names g) \<and> in_range (services s n)"
  then have a: "n \<in> set (names g)" "in_range (services s n)" by simp_all
  assume r: "run_ticks rnd h cfg g ts s = Inr s'"
  show "in_range (services s' n)"
    by (rule run_ticks_range [where rnd = rnd and cfg = cfg, OF assms a r])
next
  fix s'
  assume "n \<in> set (names g) \<and> in_range (services s n)"
  then have a: "n \<in> set (names g)" "in_range (services s n)" by simp_all
  assume r: "run rnd h cfg g cycles s = Inr s'"
  show "in_range (services s' n)"
    by (rule run_range [where rnd = rnd and cfg = cfg, OF assms a r])
qed

theorem health_stays_in_range_witness:
  "0 \<le> heal_to cfg_demo \<and> heal_to cfg_demo \<le> 1 \<and>
   (\<forall>k. 0 \<le> snd (rnd_demo (seed cfg_demo) k)) \<and>
   list_all (\<lambda>d. 0 \<le> d_health d \<and> d_health d \<le> 1) cascade_data \<and>
   ''B'' \<in> set (names (fst (ServiceGraph cascade_data))) \<and>
   in_range (snd (ServiceGraph cascade_data) ''B'') \<and>
   in_range (services (propagate_health hash0 cfg_demo (fst (ServiceGraph cascade_data))
     (handle_recovery hash0 cfg_demo (fst (ServiceGraph cascade_data))
       (glitch_phase rnd_demo cfg_demo (fst (ServiceGraph cascade_data))
         (snapshot (fst (ServiceGraph cascade_data))
           (Simulator (snd (ServiceGraph cascade_data))))))) ''B'')"
proof -
  have c: "0 \<le> heal_to cfg_demo" "heal_to cfg_demo \<le> 1"
    by (simp_all add: cfg_demo_def)
  have r: "\<forall>k. 0 \<le> snd (rnd_demo (seed cfg_demo) k)"
    by (simp add: rnd_demo_def)
  have d: "list_all (\<lambda>d. 0 \<le> d_health d \<and> d_health d \<le> 1) cascade_data"
    by (simp add: cascade_data_def)
  have m: "''B'' \<in> set (names (fst (ServiceGraph cascade_data)))"
    by (simp add: cascade_graph)
  have i: "in_range (services (Simulator (snd (ServiceGraph cascade_data))) ''B'')"
    by (simp add: Simulator_def cascade_store in_range_def Service_def)
  show ?thesis
    using c r d m i
      health_stays_in_range [where cfg = cfg_demo and rnd = rnd_demo
        and services_data = cascade_data and n = "''B''"
        and g = "fst (ServiceGraph cascade_data)"
        and s = "Simulator (snd (ServiceGraph cascade_data))" and h = hash0 and cycles = "[]",
        OF c r]
    by blast
qed

text \<open>One service whose input health is 1.5.\<close>

definition high_data :: "service_desc list" where
  "high_data = [\<lparr>d_name = ''A'', d_depends_on = [], d_health = 1.5\<rparr>]"

lemma high_graph:
  "fst (ServiceGraph high_data) = \<lparr>names = [''A''], depends_on = (\<lambda>n. [])(''A'' := [])\<rparr>"
  by (simp add: ServiceGraph_def high_data_def add_service_def)

lemma high_store: "snd (ServiceGraph high_data) = (\<lambda>n. Service 0)(''A'' := Service 1.5)"
  by (simp add: ServiceGraph_def high_data_def add_service_def)

text \<open>
  C1 as stated fails: the constructor stores \<open>float(health)\<close> as it is, so an input
  health of 1.5 is not clamped; after the glitch and the propagation of the first tick
  the health is 1.1, still above 1.
\<close>

theorem construction_does_not_clamp:
  "health (snd (ServiceGraph high_data) ''A'') = 1.5 \<and>
   \<not> in_range (snd (ServiceGraph high_data) ''A'') \<and>
   health (services (propagate_health hash0 cfg_demo (fst (ServiceGraph high_data))
     (handle_recovery hash0 cfg_demo (fst (ServiceGraph high_data))
       (glitch_phase rnd_demo cfg_demo (fst (ServiceGraph high_data))
         (snapshot (fst (ServiceGraph high_data))
           (Simulator (snd (ServiceGraph high_data))))))) ''A'') = 1.1"
  by (simp add: high_graph high_store Service_def in_range_def propagate_health_services
      handle_recovery_def cfg_demo_def glitch_phase_def apply_glitch_def eligible_def
      snapshot_def snapshot_service_def Simulator_def rnd_demo_def set_health_def Let_def
      sweep_def sweep_service_def)

end
